theory Spec2Isabelle
  imports Main "HOL-Library.Sublist" "HOL-Library.AList" "HOL-Library.Multiset"
begin

section \<open>The corpus pipeline of 4-Download_POCs.py\<close>

text \<open>
  The pipeline of \<^verbatim>\<open>NucleiEnterpriseManager\<close> works on three directory trees below the
  working directory: the cloned working copies (\<^verbatim>\<open>clone-templates\<close>), the staging tree
  (\<^verbatim>\<open>.tmp\<close>) and the corpus (\<^verbatim>\<open>poc\<close>). The model keeps the file system as an
  association list from resolved paths (lists of name components, relative to the working
  directory) to file nodes. The order of the list is the order in which \<^verbatim>\<open>os.walk\<close>
  reports the files. Directories are implicit: a directory exists where a file lies below
  it, so empty directories are not represented.

  External programs and libraries are parameters of the model: the digest \<open>sha\<close>
  (\<^verbatim>\<open>hashlib.sha256\<close>), the tag reader \<open>load_tags\<close> (\<^verbatim>\<open>yaml.safe_load\<close> followed by the two
  \<^verbatim>\<open>get\<close> calls), the checker (\<^verbatim>\<open>nuclei -validate\<close>) and \<^verbatim>\<open>git\<close>. The order in which the
  futures of a thread pool complete is a parameter too (a list of picks, see
  \<open>as_completed\<close>), and every theorem about a stage holds for all of them.
\<close>

subsection \<open>Files and paths\<close>

type_synonym path = "string list"
type_synonym bytes = string
type_synonym digest = string

text \<open>
  \<open>Broken\<close> is an entry that \<^verbatim>\<open>os.walk\<close> lists among the files of a directory and that
  \<^verbatim>\<open>open\<close> cannot read (a dangling symbolic link, a file without read permission).
\<close>

datatype node = File bytes | Broken

type_synonym fs = "(path \<times> node) list"

datatype exn = OSError | ShutilError | ValueError | RuntimeError

definition CLONE_DIR :: path where "CLONE_DIR = [''clone-templates'']"
definition POC_DIR :: path where "POC_DIR = [''poc'']"
definition TMP_DIR :: path where "TMP_DIR = [''.tmp'']"
definition INDEX_FILE :: path where "INDEX_FILE = [''poc.txt'']"

definition isfile :: "fs \<Rightarrow> path \<Rightarrow> bool" where
  "isfile fs p = (map_of fs p \<noteq> None)"

definition isdir :: "fs \<Rightarrow> path \<Rightarrow> bool" where
  "isdir fs d = list_ex (strict_prefix d) (map fst fs)"

text \<open>\<^verbatim>\<open>os.walk(top)\<close>, flattened to the paths of the files it yields.\<close>

definition walk :: "path \<Rightarrow> fs \<Rightarrow> path list" where
  "walk root fs = filter (strict_prefix root) (map fst fs)"

definition basename :: "path \<Rightarrow> string" where
  "basename p = (if p = [] then [] else last p)"

definition dirname :: "path \<Rightarrow> path" where
  "dirname p = butlast p"

text \<open>\<^verbatim>\<open>file.endswith(('.yml', '.yaml'))\<close>\<close>

definition is_rule_file :: "path \<Rightarrow> bool" where
  "is_rule_file p = (suffix ''.yml'' (basename p) \<or> suffix ''.yaml'' (basename p))"

text \<open>
  \<^verbatim>\<open>os.makedirs(d, exist_ok=True)\<close> fails when \<open>d\<close> or one of its ancestors is a regular
  file. On success the directory exists; the model has nothing to record for it. The
  working directory itself (the empty path) always exists.
\<close>

definition makedirs :: "fs \<Rightarrow> path \<Rightarrow> exn + unit" where
  "makedirs fs d =
     (if list_ex (\<lambda>p. p \<noteq> [] \<and> isfile fs p) (prefixes d) then Inl OSError else Inr ())"

text \<open>\<^verbatim>\<open>shutil.rmtree(d, ignore_errors=True)\<close>: everything below \<open>d\<close> goes; a plain file \<open>d\<close> stays.\<close>

definition rmtree :: "path \<Rightarrow> fs \<Rightarrow> fs" where
  "rmtree d fs = filter (\<lambda>(p, n). \<not> strict_prefix d p) fs"

definition os_remove :: "fs \<Rightarrow> path \<Rightarrow> exn + fs" where
  "os_remove fs p = (if isfile fs p then Inr (AList.delete p fs) else Inl OSError)"

text \<open>
  \<^verbatim>\<open>_calculate_sha256\<close>: reads the file in chunks and returns the path with the digest of
  its whole content; \<^verbatim>\<open>open\<close> raises on a missing or unreadable file.
\<close>

definition calculate_sha256 :: "(bytes \<Rightarrow> digest) \<Rightarrow> fs \<Rightarrow> path \<Rightarrow> exn + path \<times> digest" where
  "calculate_sha256 sha fs p =
     (case map_of fs p of Some (File c) \<Rightarrow> Inr (p, sha c) | _ \<Rightarrow> Inl OSError)"

subsection \<open>Completion order of a pool of futures\<close>

text \<open>
  \<^verbatim>\<open>as_completed(futures)\<close> yields the futures in the order they finish, which the program
  does not control. Each pick selects, among the futures still pending, the one that
  finishes next; when the picks run out the rest finish in submission order.
\<close>

function as_completed :: "nat list \<Rightarrow> 'a list \<Rightarrow> 'a list" where
  "as_completed picks [] = []"
| "as_completed [] (x # xs) = x # xs"
| "as_completed (k # picks) (x # xs) =
     (let i = k mod length (x # xs)
      in (x # xs) ! i # as_completed picks (take i (x # xs) @ drop (Suc i) (x # xs)))"
  by pat_completeness auto
termination
  by (relation "measure (\<lambda>(picks, xs). length xs)") auto

subsection \<open>Stage 2: deduplication of the working copies\<close>

text \<open>
  \<^verbatim>\<open>enterprise_deduplication\<close> submits one hash job per rule file below \<^verbatim>\<open>clone-templates\<close>,
  then handles the results in completion order: \<^verbatim>\<open>future.result()\<close> re-raises a failed
  hash, a digest already in the registry has its file removed, a new digest is registered.
  A file is hashed before its own result is handled, and only then may it be removed, so
  every hash is taken on the tree as the stage found it.
\<close>

definition candidates :: "fs \<Rightarrow> path list" where
  "candidates fs = filter is_rule_file (walk CLONE_DIR fs)"

fun dedup_loop :: "(digest \<rightharpoonup> path) \<Rightarrow> fs \<Rightarrow> (exn + path \<times> digest) list \<Rightarrow> exn + fs" where
  "dedup_loop hash_registry fs [] = Inr fs"
| "dedup_loop hash_registry fs (Inl e # futures) = Inl e"
| "dedup_loop hash_registry fs (Inr (path, file_hash) # futures) =
     (if hash_registry file_hash \<noteq> None
      then (case os_remove fs path of
              Inl e \<Rightarrow> Inl e
            | Inr fs' \<Rightarrow> dedup_loop hash_registry fs' futures)
      else dedup_loop (hash_registry(file_hash \<mapsto> path)) fs futures)"

definition enterprise_deduplication :: "(bytes \<Rightarrow> digest) \<Rightarrow> nat list \<Rightarrow> fs \<Rightarrow> exn + fs" where
  "enterprise_deduplication sha picks fs =
     dedup_loop Map.empty fs (as_completed picks (map (calculate_sha256 sha fs) (candidates fs)))"

text \<open>The fingerprint of the file at a path, where there is a readable file.\<close>

definition fingerprint :: "(bytes \<Rightarrow> digest) \<Rightarrow> fs \<Rightarrow> path \<Rightarrow> digest option" where
  "fingerprint sha fs p = (case map_of fs p of Some (File c) \<Rightarrow> Some (sha c) | _ \<Rightarrow> None)"

subsection \<open>Tags and staging paths\<close>

text \<open>
  What \<^verbatim>\<open>yaml.safe_load(f).get('info', {}).get('tags', [])\<close> can hand to the loop
  \<^verbatim>\<open>for tag in tags\<close>: a sequence whose items are strings or something else, a single
  string (which Python iterates character by character), or a value that is not iterable.
  The reader itself is a parameter \<open>load_tags\<close> of type \<open>bytes \<Rightarrow> yaml_tags option\<close>;
  \<open>None\<close> stands for any exception raised while opening, parsing or looking up.
\<close>

datatype yaml_item = Str string | NonStr

datatype yaml_tags = Seq "yaml_item list" | Scalar string | NotIterable

definition iter_tags :: "yaml_tags \<Rightarrow> yaml_item list option" where
  "iter_tags v = (case v of
       Seq items \<Rightarrow> Some items
     | Scalar s \<Rightarrow> Some (map (\<lambda>c. Str [c]) s)
     | NotIterable \<Rightarrow> None)"

text \<open>
  \<^verbatim>\<open>str.lower\<close>. A character of the model is a code point below 256. The upper-case
  letters among them are \<^verbatim>\<open>A\<close> to \<^verbatim>\<open>Z\<close> (65 to 90) and the accented capitals 192 to 222
  without the multiplication sign 215; the lower-case letter of each is 32 code points
  further, which is bit 5 set. Every other code point below 256 is its own lower case.
\<close>

definition is_upper :: "char \<Rightarrow> bool" where
  "is_upper c =
     (65 \<le> (of_char c :: nat) \<and> (of_char c :: nat) \<le> 90 \<or>
      192 \<le> (of_char c :: nat) \<and> (of_char c :: nat) \<le> 222 \<and> (of_char c :: nat) \<noteq> 215)"

definition lower_char :: "char \<Rightarrow> char" where
  "lower_char c =
     (if is_upper c
      then Char (digit0 c) (digit1 c) (digit2 c) (digit3 c) (digit4 c) True (digit6 c) (digit7 c)
      else c)"

definition lower :: "string \<Rightarrow> string" where
  "lower s = map lower_char s"

text \<open>
  \<^verbatim>\<open>os.path.join(d, s)\<close> for a directory \<open>d\<close> and a string \<open>s\<close>, resolved as the operating
  system resolves it: \<open>s\<close> is cut at the separators, empty components and \<^verbatim>\<open>.\<close> are dropped,
  \<^verbatim>\<open>..\<close> steps to the parent, and an \<open>s\<close> that starts with the separator replaces \<open>d\<close>. A
  path that leaves the working directory keeps its leading \<^verbatim>\<open>..\<close> components or starts
  with the component \<^verbatim>\<open>/\<close>.
\<close>

fun split_sep :: "string \<Rightarrow> string list" where
  "split_sep [] = [[]]"
| "split_sep (c # cs) =
     (if c = CHR ''/'' then [] # split_sep cs
      else (case split_sep cs of [] \<Rightarrow> [[c]] | w # ws \<Rightarrow> (c # w) # ws))"

definition parent :: "path \<Rightarrow> path" where
  "parent d = (if d = [''/''] then d
               else if d = [] \<or> last d = ''..'' then d @ [''..'']
               else butlast d)"

fun resolve :: "path \<Rightarrow> string list \<Rightarrow> path" where
  "resolve d [] = d"
| "resolve d (c # cs) =
     (if c = [] \<or> c = ''.'' then resolve d cs
      else if c = ''..'' then resolve (parent d) cs
      else resolve (d @ [c]) cs)"

definition path_join :: "path \<Rightarrow> string \<Rightarrow> path" where
  "path_join d s =
     (if s \<noteq> [] \<and> hd s = CHR ''/'' then resolve [''/''] (split_sep s)
      else resolve d (split_sep s))"

text \<open>A tag that names one directory: not empty, no separator, neither \<^verbatim>\<open>.\<close> nor \<^verbatim>\<open>..\<close>.\<close>

definition plain_name :: "string \<Rightarrow> bool" where
  "plain_name s = (s \<noteq> [] \<and> CHR ''/'' \<notin> set s \<and> s \<noteq> ''.'' \<and> s \<noteq> ''..'')"

subsection \<open>Copying and moving one file\<close>

text \<open>Some ancestor-or-self of \<open>d\<close> is a regular file, so \<open>d\<close> cannot be a directory.\<close>

definition blocked :: "fs \<Rightarrow> path \<Rightarrow> bool" where
  "blocked fs d = list_ex (\<lambda>p. p \<noteq> [] \<and> isfile fs p) (prefixes d)"

text \<open>\<^verbatim>\<open>open(p, 'wb')\<close> and writing a node there: creates the file or replaces its content.\<close>

definition write_file :: "fs \<Rightarrow> path \<Rightarrow> node \<Rightarrow> exn + fs" where
  "write_file fs p n =
     (if p = [] \<or> isdir fs p \<or> blocked fs (dirname p) then Inl OSError
      else Inr (AList.update p n fs))"

text \<open>
  \<^verbatim>\<open>shutil.copy(src, dst)\<close>: a directory \<open>dst\<close> receives the file under its own name;
  copying a file onto itself raises; the source must be readable.
\<close>

definition shutil_copy :: "fs \<Rightarrow> path \<Rightarrow> path \<Rightarrow> exn + fs" where
  "shutil_copy fs src dst =
     (let real_dst = (if isdir fs dst then dst @ [basename src] else dst)
      in case map_of fs src of
           Some (File c) \<Rightarrow> if src = real_dst then Inl ShutilError else write_file fs real_dst (File c)
         | _ \<Rightarrow> Inl OSError)"

text \<open>\<^verbatim>\<open>os.rename(src, dst)\<close> for a file \<open>src\<close>: replaces a file at \<open>dst\<close>, fails on a directory.\<close>

definition os_rename :: "fs \<Rightarrow> path \<Rightarrow> path \<Rightarrow> exn + fs" where
  "os_rename fs src dst =
     (case map_of fs src of
        None \<Rightarrow> Inl OSError
      | Some n \<Rightarrow>
          if src = dst then Inr fs
          else if dst = [] \<or> isdir fs dst \<or> blocked fs (dirname dst) then Inl OSError
          else Inr (AList.update dst n (AList.delete src fs)))"

text \<open>
  \<^verbatim>\<open>shutil.move(src, dst)\<close>: into a directory \<open>dst\<close> under the source's name, where nothing
  may exist yet; otherwise a rename.
\<close>

definition shutil_move :: "fs \<Rightarrow> path \<Rightarrow> path \<Rightarrow> exn + fs" where
  "shutil_move fs src dst =
     (if isdir fs dst
      then (let real_dst = dst @ [basename src]
            in if isfile fs real_dst \<or> isdir fs real_dst then Inl ShutilError
               else os_rename fs src real_dst)
      else os_rename fs src dst)"

text \<open>\<^verbatim>\<open>_safe_move\<close>\<close>

definition safe_move :: "fs \<Rightarrow> path \<Rightarrow> path \<Rightarrow> exn + fs" where
  "safe_move fs src dest =
     (case makedirs fs (dirname dest) of
        Inl e \<Rightarrow> Inl e
      | Inr u \<Rightarrow> shutil_move fs src dest)"

text \<open>
  A job handed to \<^verbatim>\<open>executor.submit\<close> whose future nobody reads: when it raises, the
  exception stays in the future and the file system is as before.
\<close>

definition submitted :: "(fs \<Rightarrow> exn + fs) \<Rightarrow> fs \<Rightarrow> fs" where
  "submitted job fs = (case job fs of Inl e \<Rightarrow> fs | Inr fs' \<Rightarrow> fs')"

fun run_copies :: "fs \<Rightarrow> (path \<times> path) list \<Rightarrow> fs" where
  "run_copies fs [] = fs"
| "run_copies fs ((src, dst) # jobs) = run_copies (submitted (\<lambda>s. shutil_copy s src dst) fs) jobs"

fun run_moves :: "fs \<Rightarrow> (path \<times> path) list \<Rightarrow> fs" where
  "run_moves fs [] = fs"
| "run_moves fs ((src, dest) # jobs) = run_moves (submitted (\<lambda>s. safe_move s src dest) fs) jobs"

subsection \<open>Stage 3: categorization into staging areas\<close>

text \<open>
  The loop over the tags in \<^verbatim>\<open>_process_poc\<close>. It stops at the first item whose
  \<^verbatim>\<open>lower\<close> or \<^verbatim>\<open>makedirs\<close> raises (the surrounding \<^verbatim>\<open>except\<close> swallows the exception); the
  copies submitted before that still run. The result is the list of submitted copies,
  source and destination. \<^verbatim>\<open>makedirs\<close> is tried on the tree as the stage found it, which is
  exact when staging starts empty and the tags are plain names: the copies then only
  create files at depth three below \<^verbatim>\<open>.tmp\<close>.
\<close>

fun stage_tags :: "fs \<Rightarrow> path \<Rightarrow> yaml_item list \<Rightarrow> (path \<times> path) list" where
  "stage_tags fs src [] = []"
| "stage_tags fs src (NonStr # tags) = []"
| "stage_tags fs src (Str tag # tags) =
     (let dest_dir = path_join TMP_DIR (lower tag)
      in case makedirs fs dest_dir of
           Inl e \<Rightarrow> []
         | Inr u \<Rightarrow> (src, dest_dir @ [basename src]) # stage_tags fs src tags)"

text \<open>
  \<^verbatim>\<open>_process_poc\<close>: a failed hash ends the worker (its future is never read), a known
  fingerprint returns at once, any failure of the tag reader is swallowed.
\<close>

definition process_poc ::
  "(bytes \<Rightarrow> digest) \<Rightarrow> (bytes \<Rightarrow> yaml_tags option) \<Rightarrow> fs \<Rightarrow> digest list \<Rightarrow> path
     \<Rightarrow> (path \<times> path) list" where
  "process_poc sha load_tags fs existing_hashes src =
     (case map_of fs src of
        Some (File c) \<Rightarrow>
          if sha c \<in> set existing_hashes then []
          else (case load_tags c of
                  None \<Rightarrow> []
                | Some v \<Rightarrow> (case iter_tags v of None \<Rightarrow> [] | Some tags \<Rightarrow> stage_tags fs src tags))
      | _ \<Rightarrow> [])"

text \<open>The set comprehension over \<^verbatim>\<open>os.walk(POC_DIR)\<close>: one failed hash fails the whole stage.\<close>

fun hash_all :: "(bytes \<Rightarrow> digest) \<Rightarrow> fs \<Rightarrow> path list \<Rightarrow> exn + digest list" where
  "hash_all sha fs [] = Inr []"
| "hash_all sha fs (p # ps) =
     (case calculate_sha256 sha fs p of
        Inl e \<Rightarrow> Inl e
      | Inr (q, h) \<Rightarrow> (case hash_all sha fs ps of Inl e \<Rightarrow> Inl e | Inr hs \<Rightarrow> Inr (h # hs)))"

definition staging_jobs ::
  "(bytes \<Rightarrow> digest) \<Rightarrow> (bytes \<Rightarrow> yaml_tags option) \<Rightarrow> fs \<Rightarrow> digest list \<Rightarrow> (path \<times> path) list" where
  "staging_jobs sha load_tags fs existing_hashes =
     concat (map (process_poc sha load_tags fs existing_hashes) (candidates fs))"

definition dynamic_categorization ::
  "(bytes \<Rightarrow> digest) \<Rightarrow> (bytes \<Rightarrow> yaml_tags option) \<Rightarrow> nat list \<Rightarrow> fs \<Rightarrow> exn + fs" where
  "dynamic_categorization sha load_tags picks fs =
     (case hash_all sha fs (walk POC_DIR fs) of
        Inl e \<Rightarrow> Inl e
      | Inr existing_hashes \<Rightarrow>
          Inr (run_copies fs (as_completed picks (staging_jobs sha load_tags fs existing_hashes))))"

subsection \<open>Stage 4: validation and migration\<close>

text \<open>
  How \<^verbatim>\<open>subprocess.run([NUCLEI_BIN, "-validate", "-t", path], timeout=120)\<close> can end. The
  checker is a parameter: it is given the timeout in seconds, the path and what lies there.
\<close>

datatype proc_result = Exited int | TimeoutExpired | SpawnError

type_synonym checker = "nat \<Rightarrow> path \<Rightarrow> node option \<Rightarrow> proc_result"

text \<open>
  \<^verbatim>\<open>_validate_poc\<close>: a non-zero exit removes the file inside the \<^verbatim>\<open>try\<close>; should that
  removal raise, the handler removes again and the second exception leaves the function.
  A timeout or a failed start removes the file in the handler.
\<close>

definition validate_poc :: "checker \<Rightarrow> fs \<Rightarrow> path \<Rightarrow> exn + fs" where
  "validate_poc check fs path =
     (case check 120 path (map_of fs path) of
        Exited returncode \<Rightarrow> if returncode \<noteq> 0 then os_remove fs path else Inr fs
      | TimeoutExpired \<Rightarrow> os_remove fs path
      | SpawnError \<Rightarrow> os_remove fs path)"

text \<open>
  \<^verbatim>\<open>range(0, stop, step)\<close> for a stop that is a length: a zero step raises
  \<^verbatim>\<open>ValueError\<close>, a negative step gives the empty range.
\<close>

definition py_range :: "nat \<Rightarrow> int \<Rightarrow> exn + nat list" where
  "py_range stop step =
     (if step = 0 then Inl ValueError
      else if step < 0 then Inr []
      else Inr (map (\<lambda>k. k * nat step) [0..<(stop + nat step - 1) div nat step]))"

text \<open>\<^verbatim>\<open>xs[i:i+n]\<close> for \<open>n\<close> not negative.\<close>

definition slice :: "'a list \<Rightarrow> nat \<Rightarrow> nat \<Rightarrow> 'a list" where
  "slice xs i n = take n (drop i xs)"

text \<open>\<^verbatim>\<open>list(executor.map(self._validate_poc, batch))\<close>: the first exception is re-raised.\<close>

fun validate_batch :: "checker \<Rightarrow> fs \<Rightarrow> path list \<Rightarrow> exn + fs" where
  "validate_batch check fs [] = Inr fs"
| "validate_batch check fs (path # paths) =
     (case validate_poc check fs path of
        Inl e \<Rightarrow> Inl e
      | Inr fs' \<Rightarrow> validate_batch check fs' paths)"

fun validate_batches :: "checker \<Rightarrow> fs \<Rightarrow> path list list \<Rightarrow> exn + fs" where
  "validate_batches check fs [] = Inr fs"
| "validate_batches check fs (batch # batches) =
     (case validate_batch check fs batch of
        Inl e \<Rightarrow> Inl e
      | Inr fs' \<Rightarrow> validate_batches check fs' batches)"

text \<open>The validation loop of \<^verbatim>\<open>enterprise_validation\<close>, before the migration.\<close>

definition validate_staging :: "checker \<Rightarrow> fs \<Rightarrow> exn + fs" where
  "validate_staging check fs =
     (let file_paths = walk TMP_DIR fs
      in case py_range (length file_paths) 200 of
           Inl e \<Rightarrow> Inl e
         | Inr starts \<Rightarrow> validate_batches check fs (map (\<lambda>i. slice file_paths i 200) starts))"

text \<open>
  \<^verbatim>\<open>_migrate_valid_files\<close>: one move per file below \<^verbatim>\<open>.tmp\<close>, to the same relative path
  below \<^verbatim>\<open>poc\<close>. The moves run in a pool and their futures are never read.
\<close>

definition relpath :: "path \<Rightarrow> path \<Rightarrow> path" where
  "relpath p start = drop (length start) p"

definition migration_jobs :: "fs \<Rightarrow> (path \<times> path) list" where
  "migration_jobs fs = map (\<lambda>src. (src, POC_DIR @ relpath src TMP_DIR)) (walk TMP_DIR fs)"

definition migrate_valid_files :: "nat list \<Rightarrow> fs \<Rightarrow> fs" where
  "migrate_valid_files picks fs = run_moves fs (as_completed picks (migration_jobs fs))"

definition enterprise_validation :: "checker \<Rightarrow> nat list \<Rightarrow> fs \<Rightarrow> exn + fs" where
  "enterprise_validation check picks fs =
     (case validate_staging check fs of
        Inl e \<Rightarrow> Inl e
      | Inr fs' \<Rightarrow> Inr (migrate_valid_files picks fs'))"

subsection \<open>Stage 5: the index\<close>

text \<open>A path as the text \<^verbatim>\<open>os.path.relpath\<close> returns: its components with separators.\<close>

fun path_text :: "path \<Rightarrow> string" where
  "path_text [] = []"
| "path_text [c] = c"
| "path_text (c # d # cs) = c @ ''/'' @ path_text (d # cs)"

definition index_entries :: "fs \<Rightarrow> path list" where
  "index_entries fs = map (\<lambda>p. relpath p POC_DIR) (filter is_rule_file (walk POC_DIR fs))"

definition index_text :: "fs \<Rightarrow> bytes" where
  "index_text fs = concat (map (\<lambda>p. path_text p @ [CHR 0x0A]) (index_entries fs))"

text \<open>\<^verbatim>\<open>generate_index\<close>: \<^verbatim>\<open>poc.txt\<close> is opened for writing, which truncates it.\<close>

definition generate_index :: "fs \<Rightarrow> exn + fs" where
  "generate_index fs = write_file fs INDEX_FILE (File (index_text fs))"

subsection \<open>The whole run\<close>

record config =
  ENABLE_STAGE1 :: bool
  GIT_PARALLEL :: int
  GIT_DEPTH :: int

text \<open>
  \<^verbatim>\<open>_load_config\<close>: the argument is the configuration as read from \<^verbatim>\<open>config.json\<close> with
  the defaults filled in, or \<open>None\<close> when opening or parsing the file raised.
\<close>

definition load_config :: "config option \<Rightarrow> exn + config" where
  "load_config file = (case file of None \<Rightarrow> Inl RuntimeError | Some c \<Rightarrow> Inr c)"

text \<open>\<^verbatim>\<open>_init_workspace\<close>\<close>

definition init_workspace :: "fs \<Rightarrow> exn + fs" where
  "init_workspace fs =
     (case makedirs fs CLONE_DIR of
        Inl e \<Rightarrow> Inl e
      | Inr u \<Rightarrow>
          (case makedirs fs POC_DIR of
             Inl e \<Rightarrow> Inl e
           | Inr u \<Rightarrow>
               (let fs' = rmtree TMP_DIR fs
                in case makedirs fs' TMP_DIR of Inl e \<Rightarrow> Inl e | Inr u \<Rightarrow> Inr fs')))"

text \<open>
  What the run depends on and does not control: the libraries and programs it calls, the
  completion orders of its three pools, and the \<^verbatim>\<open>KeyboardInterrupt\<close> that reaches the main
  thread inside the \<^verbatim>\<open>try\<close> block, if any. An interrupt is given by the stage (counted from
  0) it arrives in and by what that stage has done to the tree by then, a function of the
  tree the stage started from: the identity when the interrupt arrives as the stage
  starts, the effect of the jobs already run when it arrives later. \<open>git_sync\<close> is stage 1
  as a whole (\<^verbatim>\<open>dynamic_repo_discovery\<close> with its calls of \<^verbatim>\<open>git\<close>), which changes the
  working copies in ways only \<^verbatim>\<open>git\<close> and the remote sources decide.
\<close>

record world =
  hashlib_sha256 :: "bytes \<Rightarrow> digest"
  yaml_tags :: "bytes \<Rightarrow> yaml_tags option"
  nuclei :: checker
  git_sync :: "config \<Rightarrow> fs \<Rightarrow> exn + fs"
  dedup_picks :: "nat list"
  copy_picks :: "nat list"
  move_picks :: "nat list"
  sigint :: "(nat \<times> (fs \<Rightarrow> fs)) option"

datatype abort = Raised exn | KeyboardInterrupt

text \<open>
  The body of the \<^verbatim>\<open>try\<close>: the stages in sequence. An exception ends the sequence; for a
  \<^verbatim>\<open>KeyboardInterrupt\<close> the tree the interrupted stage leaves is kept for the handler.
\<close>

fun run_stages ::
  "(nat \<times> (fs \<Rightarrow> fs)) option \<Rightarrow> (fs \<Rightarrow> exn + fs) list \<Rightarrow> fs \<Rightarrow> abort \<times> fs + fs" where
  "run_stages interrupt [] fs = Inr fs"
| "run_stages None (stage # stages) fs =
     (case stage fs of
        Inl e \<Rightarrow> Inl (Raised e, fs)
      | Inr fs' \<Rightarrow> run_stages None stages fs')"
| "run_stages (Some (0, so_far)) (stage # stages) fs = Inl (KeyboardInterrupt, so_far fs)"
| "run_stages (Some (Suc k, so_far)) (stage # stages) fs =
     (case stage fs of
        Inl e \<Rightarrow> Inl (Raised e, fs)
      | Inr fs' \<Rightarrow> run_stages (Some (k, so_far)) stages fs')"

definition stages :: "world \<Rightarrow> config \<Rightarrow> (fs \<Rightarrow> exn + fs) list" where
  "stages w c =
     [\<lambda>fs. if ENABLE_STAGE1 c then git_sync w c fs else Inr fs,
      enterprise_deduplication (hashlib_sha256 w) (dedup_picks w),
      dynamic_categorization (hashlib_sha256 w) (yaml_tags w) (copy_picks w),
      enterprise_validation (nuclei w) (move_picks w),
      generate_index]"

text \<open>
  How the process ends: normally, with the final tree and the total it printed; in the
  interrupt handler, with the tree the handler leaves; or with an uncaught exception.
\<close>

datatype ending = Completed fs nat | Interrupted fs | Uncaught exn

text \<open>The \<^verbatim>\<open>except KeyboardInterrupt\<close> clause, up to its \<^verbatim>\<open>exit(1)\<close>.\<close>

definition on_interrupt :: "fs \<Rightarrow> ending" where
  "on_interrupt fs = Interrupted (rmtree TMP_DIR fs)"

definition main :: "world \<Rightarrow> config option \<Rightarrow> fs \<Rightarrow> ending" where
  "main w file fs =
     (case load_config file of
        Inl e \<Rightarrow> Uncaught e
      | Inr c \<Rightarrow>
          (case init_workspace fs of
             Inl e \<Rightarrow> Uncaught e
           | Inr fs0 \<Rightarrow>
               (case run_stages (sigint w) (stages w c) fs0 of
                  Inl (KeyboardInterrupt, s) \<Rightarrow> on_interrupt s
                | Inl (Raised e, s) \<Rightarrow> Uncaught e
                | Inr s \<Rightarrow> Completed s (length (walk POC_DIR s)))))"

text \<open>
  The exit status: 0 when the script runs off its end, 1 from \<^verbatim>\<open>exit(1)\<close> in the handler,
  1 when the interpreter ends on an uncaught exception.
\<close>

definition exit_status :: "ending \<Rightarrow> nat" where
  "exit_status r = (case r of Completed fs n \<Rightarrow> 0 | Interrupted fs \<Rightarrow> 1 | Uncaught e \<Rightarrow> 1)"

subsection \<open>Stage 1: synchronising the working copies\<close>

text \<open>
  \<^verbatim>\<open>_async_git_ops\<close> for one URL, as the sequence of what it does. What \<^verbatim>\<open>git\<close> does to the
  working copy is not in the hands of the program, so two oracles stand for it: whether the
  target directory exists when attempt \<open>retry\<close> looks, and how \<^verbatim>\<open>run_command\<close> ends in that
  attempt, with a return code or with an exception.
\<close>

datatype git_cmd = Pull | Clone

datatype attempt = Returned int | Failed

datatype git_event = Attempt git_cmd | Sleep nat | Print

fun git_retries :: "(nat \<Rightarrow> bool) \<Rightarrow> (nat \<Rightarrow> git_cmd \<Rightarrow> attempt) \<Rightarrow> nat list \<Rightarrow> git_event list" where
  "git_retries exists run_command [] = []"
| "git_retries exists run_command (retry # retries) =
     (let cmd = (if exists retry then Pull else Clone)
      in case run_command retry cmd of
           Returned return_code \<Rightarrow>
             if return_code = 0 then [Attempt cmd]
             else Attempt cmd # Sleep (2 ^ retry) # git_retries exists run_command retries
         | Failed \<Rightarrow> Attempt cmd # Print # git_retries exists run_command retries)"

definition async_git_ops :: "(nat \<Rightarrow> bool) \<Rightarrow> (nat \<Rightarrow> git_cmd \<Rightarrow> attempt) \<Rightarrow> git_event list" where
  "async_git_ops exists run_command = git_retries exists run_command [0..<3]"

text \<open>
  The dispatch loop of \<^verbatim>\<open>dynamic_repo_discovery\<close> over the URLs read from the registry:
  \<^verbatim>\<open>asyncio.gather\<close> starts every operation of a batch and returns when all of them are done,
  in an order the program does not control (\<open>picks i\<close> for the batch that starts at \<open>i\<close>).
\<close>

datatype sync_event = Dispatch string | Complete string

definition gather :: "nat list \<Rightarrow> string list \<Rightarrow> sync_event list" where
  "gather picks batch = map Dispatch batch @ map Complete (as_completed picks batch)"

definition dynamic_repo_discovery ::
  "(nat \<Rightarrow> nat list) \<Rightarrow> config \<Rightarrow> string list \<Rightarrow> exn + sync_event list" where
  "dynamic_repo_discovery picks c urls =
     (if \<not> ENABLE_STAGE1 c then Inr []
      else (let batch_size = GIT_PARALLEL c * 2
            in case py_range (length urls) batch_size of
                 Inl e \<Rightarrow> Inl e
               | Inr starts \<Rightarrow>
                   Inr (concat (map (\<lambda>i. gather (picks i) (slice urls i (nat batch_size))) starts))))"

text \<open>The operations dispatched and not yet complete at the end of a sequence of events.\<close>

fun in_flight :: "sync_event list \<Rightarrow> int" where
  "in_flight [] = 0"
| "in_flight (Dispatch u # es) = in_flight es + 1"
| "in_flight (Complete u # es) = in_flight es - 1"

subsection \<open>Notions used to state the properties\<close>

text \<open>
  The order in which the hash jobs of the deduplication stage complete, and the files it
  finds already registered: those with an earlier file of the same fingerprint.
\<close>

definition completion_order :: "nat list \<Rightarrow> fs \<Rightarrow> path list" where
  "completion_order picks fs = as_completed picks (candidates fs)"

definition earlier :: "path list \<Rightarrow> path \<Rightarrow> path list" where
  "earlier order p = takeWhile (\<lambda>q. q \<noteq> p) order"

definition duplicates :: "(bytes \<Rightarrow> digest) \<Rightarrow> nat list \<Rightarrow> fs \<Rightarrow> path list" where
  "duplicates sha picks fs =
     filter (\<lambda>p. list_ex (\<lambda>q. fingerprint sha fs q = fingerprint sha fs p)
                   (earlier (completion_order picks fs) p))
       (completion_order picks fs)"

text \<open>
  The shape of the staging tree and of the corpus: staging as \<^verbatim>\<open>_init_workspace\<close> leaves
  it (a directory without files), staging while it is being filled (files only at
  \<^verbatim>\<open>.tmp/tag/name\<close>), and a corpus organised by tag (files only at \<^verbatim>\<open>poc/tag/name\<close>).
\<close>

definition staging_clean :: "fs \<Rightarrow> bool" where
  "staging_clean fs = (\<not> isfile fs TMP_DIR \<and> walk TMP_DIR fs = [])"

definition staging_flat :: "fs \<Rightarrow> bool" where
  "staging_flat fs = (\<not> isfile fs TMP_DIR \<and> list_all (\<lambda>p. length p = 3) (walk TMP_DIR fs))"

definition corpus_by_tag :: "fs \<Rightarrow> bool" where
  "corpus_by_tag fs = (\<not> isfile fs POC_DIR \<and> list_all (\<lambda>p. length p = 3) (walk POC_DIR fs))"

text \<open>
  The tags the loop of \<^verbatim>\<open>_process_poc\<close> gets to, lower-cased: the string items before
  the first item that is no string. \<open>declared_tags\<close> are those of the file at a path, and
  \<open>tags_plain\<close> says that for every rule file of the working copies each of them names one
  directory.
\<close>

fun tag_names :: "yaml_item list \<Rightarrow> string list" where
  "tag_names [] = []"
| "tag_names (NonStr # items) = []"
| "tag_names (Str tag # items) = lower tag # tag_names items"

definition declared_tags :: "(bytes \<Rightarrow> yaml_tags option) \<Rightarrow> fs \<Rightarrow> path \<Rightarrow> string list" where
  "declared_tags load_tags fs p =
     (case map_of fs p of
        Some (File c) \<Rightarrow>
          (case load_tags c of
             None \<Rightarrow> []
           | Some v \<Rightarrow> (case iter_tags v of None \<Rightarrow> [] | Some items \<Rightarrow> tag_names items))
      | _ \<Rightarrow> [])"

definition tags_plain :: "(bytes \<Rightarrow> yaml_tags option) \<Rightarrow> fs \<Rightarrow> bool" where
  "tags_plain load_tags fs =
     list_all (\<lambda>p. list_all plain_name (declared_tags load_tags fs p)) (candidates fs)"

text \<open>
  The two kinds of jobs the pools run when tags are plain names: a copy from outside the
  staging tree to \<^verbatim>\<open>.tmp/tag/name\<close>, and a move from \<^verbatim>\<open>.tmp/tag/name\<close> to
  \<^verbatim>\<open>poc/tag/name\<close>.
\<close>

definition staging_job :: "path \<times> path \<Rightarrow> bool" where
  "staging_job job = (\<not> strict_prefix TMP_DIR (fst job) \<and> (\<exists>t f. snd job = TMP_DIR @ [t, f]))"

definition migration_job :: "path \<times> path \<Rightarrow> bool" where
  "migration_job job = (\<exists>t f. fst job = TMP_DIR @ [t, f] \<and> snd job = POC_DIR @ [t, f])"



text \<open>The batches of the dispatch loop for a batch size \<open>n\<close>, in order.\<close>

definition sync_batches :: "nat \<Rightarrow> string list \<Rightarrow> string list list" where
  "sync_batches n urls = map (\<lambda>k. slice urls (k * n) n) [0..<(length urls + n - 1) div n]"

subsection \<open>Scenarios\<close>

text \<open>
  Concrete inputs on which the theorems below are run. In the scenarios the digest is the
  identity on contents: like any digest it gives equal fingerprints to equal contents, and
  it never lets two different contents collide.
\<close>

definition plain_digest :: "bytes \<Rightarrow> digest" where
  "plain_digest c = c"

text \<open>Two working copies holding the same rule, a second rule, and a file that is no rule.\<close>

definition dup_tree :: fs where
  "dup_tree =
     [([''clone-templates'', ''r1'', ''x.yaml''], File ''A''),
      ([''clone-templates'', ''r2'', ''x.yaml''], File ''A''),
      ([''clone-templates'', ''r2'', ''y.yml''], File ''B''),
      ([''clone-templates'', ''r2'', ''README.md''], File ''A'')]"

text \<open>
  Oracles for one URL: no working copy yet; \<^verbatim>\<open>git\<close> cannot be started, so that every
  \<^verbatim>\<open>run_command\<close> raises; \<^verbatim>\<open>git\<close> exits with 128 each time.
\<close>

definition no_working_copy :: "nat \<Rightarrow> bool" where
  "no_working_copy k = False"

definition git_missing :: "nat \<Rightarrow> git_cmd \<Rightarrow> attempt" where
  "git_missing k c = Failed"

definition git_exits_128 :: "nat \<Rightarrow> git_cmd \<Rightarrow> attempt" where
  "git_exits_128 k c = Returned 128"

text \<open>A configuration with parallelism 1, five URLs, and completion orders for the batches.\<close>

definition small_config :: config where
  "small_config = \<lparr>ENABLE_STAGE1 = True, GIT_PARALLEL = 1, GIT_DEPTH = 1\<rparr>"

definition five_urls :: "string list" where
  "five_urls = [''u1'', ''u2'', ''u3'', ''u4'', ''u5'']"

definition last_first :: "nat \<Rightarrow> nat list" where
  "last_first i = [1]"

text \<open>
  A tag reader on toy contents (the content names its tags), checkers that accept
  everything or everything but one content, a synchronisation stage that changes nothing,
  and a world made of them with every pool completing in submission order.
\<close>

definition toy_tags :: "bytes \<Rightarrow> yaml_tags option" where
  "toy_tags c =
     (if c = ''tags: [RCE, cve]'' then Some (Seq [Str ''RCE'', Str ''cve''])
      else if c = ''tags: [rce]'' then Some (Seq [Str ''rce''])
      else if c = ''tags: [rce] #2'' then Some (Seq [Str ''rce''])
      else if c = ''tags: []'' then Some (Seq [])
      else None)"

definition accept_all :: checker where
  "accept_all t p n = Exited 0"

definition reject_second :: checker where
  "reject_second t p n = (if n = Some (File ''tags: [rce] #2'') then Exited 1 else Exited 0)"

definition no_sync :: "config \<Rightarrow> fs \<Rightarrow> exn + fs" where
  "no_sync c fs = Inr fs"

definition quiet_world :: world where
  "quiet_world =
     \<lparr>hashlib_sha256 = plain_digest, yaml_tags = toy_tags, nuclei = accept_all, git_sync = no_sync,
      dedup_picks = [], copy_picks = [], move_picks = [], sigint = None\<rparr>"

text \<open>One rule with two tags in a working copy, an empty corpus, and a stale staging file.\<close>

definition two_tag_tree :: fs where
  "two_tag_tree =
     [([''clone-templates'', ''r1'', ''x.yaml''], File ''tags: [RCE, cve]''),
      ([''.tmp'', ''old'', ''stale.yaml''], File ''tags: [rce]'')]"

text \<open>
  The same world with an interrupt in the validation stage, when the first of the two
  staged copies has been moved into the corpus.
\<close>

definition first_move_done :: "fs \<Rightarrow> fs" where
  "first_move_done fs =
     submitted (\<lambda>s. safe_move s [''.tmp'', ''rce'', ''x.yaml''] [''poc'', ''rce'', ''x.yaml'']) fs"

definition interrupted_world :: world where
  "interrupted_world = quiet_world\<lparr>sigint := Some (3, first_move_done)\<rparr>"

text \<open>Two staged files, of which the checker rejects the second, and an older corpus file.\<close>

definition staged_tree :: fs where
  "staged_tree =
     [([''.tmp'', ''rce'', ''x.yaml''], File ''tags: [rce]''),
      ([''.tmp'', ''rce'', ''y.yaml''], File ''tags: [rce] #2''),
      ([''poc'', ''old'', ''z.yaml''], File ''tags: []'')]"

text \<open>A corpus that holds a rule and, beside it, a file that is no rule.\<close>

definition mixed_corpus :: fs where
  "mixed_corpus =
     [([''poc'', ''rce'', ''x.yaml''], File ''tags: [rce]''),
      ([''poc'', ''rce'', ''notes.txt''], File ''seen in the wild'')]"

text \<open>One rule with two tags in a working copy; nothing staged, nothing in the corpus.\<close>

definition one_rule_tree :: fs where
  "one_rule_tree = [([''clone-templates'', ''r1'', ''x.yaml''], File ''tags: [RCE, cve]'')]"

definition one_rule_staged :: fs where
  "one_rule_staged =
     [([''clone-templates'', ''r1'', ''x.yaml''], File ''tags: [RCE, cve]''),
      ([''.tmp'', ''rce'', ''x.yaml''], File ''tags: [RCE, cve]''),
      ([''.tmp'', ''cve'', ''x.yaml''], File ''tags: [RCE, cve]'')]"

definition one_rule_curated :: fs where
  "one_rule_curated =
     [([''clone-templates'', ''r1'', ''x.yaml''], File ''tags: [RCE, cve]''),
      ([''poc'', ''rce'', ''x.yaml''], File ''tags: [RCE, cve]''),
      ([''poc'', ''cve'', ''x.yaml''], File ''tags: [RCE, cve]'')]"





text \<open>
  A working copy with a rule and, beside it, a symbolic link named like a rule whose target
  is gone; and the same working copy without the link.
\<close>

definition dangling_link_tree :: fs where
  "dangling_link_tree =
     [([''clone-templates'', ''r1'', ''x.yaml''], File ''tags: [rce]''),
      ([''clone-templates'', ''r1'', ''gone.yaml''], Broken)]"

definition sound_tree :: fs where
  "sound_tree = [([''clone-templates'', ''r1'', ''x.yaml''], File ''tags: [rce]'')]"











section \<open>Properties\<close>

subsection \<open>Completion orders and association lists\<close>

lemma as_completed_mset: "mset (as_completed picks xs) = mset xs"
proof (induction picks xs rule: as_completed.induct)
  case (3 k picks x xs)
  let ?ys = "x # xs"
  let ?i = "k mod length ?ys"
  have i: "?i < length ?ys" by simp
  have "mset ?ys = mset (take ?i ?ys @ ?ys ! ?i # drop (Suc ?i) ?ys)"
    using id_take_nth_drop[OF i] by simp
  then show ?case using 3 by (simp add: Let_def)
qed simp_all

lemma as_completed_set: "set (as_completed picks xs) = set xs"
  using as_completed_mset[of picks xs] by (metis set_mset_mset)

lemma as_completed_distinct: "distinct (as_completed picks xs) = distinct xs"
  using as_completed_mset[of picks xs] by (metis distinct_count_atmost_1 set_mset_mset)

lemma as_completed_map: "as_completed picks (map f xs) = map f (as_completed picks xs)"
proof (induction picks xs rule: as_completed.induct)
  case (3 k picks x xs)
  let ?ys = "x # xs"
  let ?i = "k mod length ?ys"
  have i: "?i < length ?ys" by simp
  have "as_completed (k # picks) (map f ?ys) =
        (map f ?ys) ! ?i # as_completed picks (take ?i (map f ?ys) @ drop (Suc ?i) (map f ?ys))"
    by (simp add: Let_def)
  also have "\<dots> = f (?ys ! ?i) # as_completed picks (map f (take ?i ?ys @ drop (Suc ?i) ?ys))"
    using i by (simp only: nth_map take_map drop_map map_append)
  also have "\<dots> = map f (as_completed (k # picks) ?ys)"
    using 3 by (simp add: Let_def)
  finally show ?case .
qed simp_all

lemma map_of_filter_key:
  "map_of (filter (\<lambda>(k, v). Q k) xs) k = (if Q k then map_of xs k else None)"
  by (induction xs) auto

lemma map_fst_filter_key:
  "map fst (filter (\<lambda>(k, v). Q k) xs) = filter Q (map fst xs)"
  by (induction xs) auto

lemma delete_filter: "AList.delete p fs = filter (\<lambda>(k, v). k \<noteq> p) fs"
  by (induction fs) auto

lemma dedup_loop_results:
  "dedup_loop reg fs rs = Inr fs' \<Longrightarrow> r \<in> set rs \<Longrightarrow> \<exists>p h. r = Inr (p, h)"
proof (induction reg fs rs rule: dedup_loop.induct)
  case (3 reg fs path file_hash futures)
  show ?case
  proof (cases "r = Inr (path, file_hash)")
    case True
    then show ?thesis by blast
  next
    case False
    with 3 show ?thesis
      by (auto simp del: fun_upd_apply split: if_splits sum.splits)
  qed
qed simp_all

lemma dedup_loop_filter:
  assumes "distinct ps" and "\<forall>p\<in>set ps. isfile fs p"
  shows "dedup_loop reg fs (map (\<lambda>p. Inr (p, H p)) ps) =
         Inr (filter (\<lambda>(p, n). \<not> (p \<in> set ps \<and> H p \<in> dom reg \<union> H ` set (takeWhile (\<lambda>q. q \<noteq> p) ps))) fs)"
  using assms
proof (induction ps arbitrary: reg fs)
  case Nil
  then show ?case by simp
next
  case (Cons p ps)
  show ?case
  proof (cases "H p \<in> dom reg")
    case True
    have rm: "os_remove fs p = Inr (AList.delete p fs)"
      using Cons.prems by (simp add: os_remove_def)
    have files: "\<forall>q\<in>set ps. isfile (AList.delete p fs) q"
      using Cons.prems by (auto simp: isfile_def AList.delete_conv')
    have "dedup_loop reg fs (map (\<lambda>p. Inr (p, H p)) (p # ps)) =
          dedup_loop reg (AList.delete p fs) (map (\<lambda>p. Inr (p, H p)) ps)"
      using True rm by (auto simp: dom_def)
    also have "\<dots> = Inr (filter (\<lambda>(q, n). \<not> (q \<in> set ps \<and> H q \<in> dom reg \<union> H ` set (takeWhile (\<lambda>r. r \<noteq> q) ps))) (AList.delete p fs))"
      using Cons.IH[OF _ files] Cons.prems by simp
    also have "\<dots> = Inr (filter (\<lambda>(q, n). \<not> (q \<in> set (p # ps) \<and> H q \<in> dom reg \<union> H ` set (takeWhile (\<lambda>r. r \<noteq> q) (p # ps)))) fs)"
      unfolding delete_filter filter_filter using True
      by (auto intro!: filter_cong)
    finally show ?thesis .
  next
    case False
    have files: "\<forall>q\<in>set ps. isfile fs q" using Cons.prems by simp
    have notin: "p \<notin> set ps" using Cons.prems by simp
    have "dedup_loop reg fs (map (\<lambda>p. Inr (p, H p)) (p # ps)) =
          dedup_loop (reg(H p \<mapsto> p)) fs (map (\<lambda>p. Inr (p, H p)) ps)"
      using False by (auto simp: dom_def)
    also have "\<dots> = Inr (filter (\<lambda>(q, n). \<not> (q \<in> set ps \<and> H q \<in> dom (reg(H p \<mapsto> p)) \<union> H ` set (takeWhile (\<lambda>r. r \<noteq> q) ps))) fs)"
      using Cons.IH[OF _ files] Cons.prems by simp
    also have "\<dots> = Inr (filter (\<lambda>(q, n). \<not> (q \<in> set (p # ps) \<and> H q \<in> dom reg \<union> H ` set (takeWhile (\<lambda>r. r \<noteq> q) (p # ps)))) fs)"
      using False notin by (auto intro!: filter_cong)
    finally show ?thesis .
  qed
qed


lemma walk_distinct: "distinct (map fst fs) \<Longrightarrow> distinct (walk d fs)"
  by (simp add: walk_def)

lemma candidates_distinct: "distinct (map fst fs) \<Longrightarrow> distinct (candidates fs)"
  by (simp add: candidates_def walk_distinct)

lemma walk_isfile: "p \<in> set (walk d fs) \<Longrightarrow> isfile fs p"
  by (auto simp: walk_def isfile_def map_of_eq_None_iff)

lemma candidates_isfile: "p \<in> set (candidates fs) \<Longrightarrow> isfile fs p"
  by (auto simp: candidates_def walk_isfile)

lemma walk_filter_key:
  "walk d (filter (\<lambda>(k, v). Q k) fs) = filter Q (walk d fs)"
  by (simp add: walk_def map_fst_filter_key) (metis (mono_tags, lifting) filter_cong conj_commute)

lemma candidates_filter_key:
  "candidates (filter (\<lambda>(k, v). Q k) fs) = filter Q (candidates fs)"
  by (simp add: candidates_def walk_filter_key) (metis (mono_tags, lifting) filter_cong conj_commute)

lemma fingerprint_filter_key:
  "Q p \<Longrightarrow> fingerprint sha (filter (\<lambda>(k, v). Q k) fs) p = fingerprint sha fs p"
  by (simp add: fingerprint_def map_of_filter_key)

lemma calculate_sha256_Inr:
  "calculate_sha256 sha fs p = Inr r \<Longrightarrow>
   \<exists>c. map_of fs p = Some (File c) \<and> r = (p, sha c) \<and> fingerprint sha fs p = Some (sha c)"
  by (auto simp: calculate_sha256_def fingerprint_def split: option.splits node.splits)

lemma before_or_after:
  "p \<in> set xs \<Longrightarrow> q \<in> set xs \<Longrightarrow> p \<noteq> q \<Longrightarrow>
   p \<in> set (takeWhile (\<lambda>r. r \<noteq> q) xs) \<or> q \<in> set (takeWhile (\<lambda>r. r \<noteq> p) xs)"
  by (induction xs) auto

text \<open>What the deduplication stage leaves, when it completes.\<close>

lemma dedup_result:
  assumes wf: "distinct (map fst fs)"
      and run: "enterprise_deduplication sha picks fs = Inr fs'"
  shows "fs' = filter (\<lambda>(p, n). p \<notin> set (duplicates sha picks fs)) fs"
    and "\<forall>p\<in>set (candidates fs). \<exists>c. map_of fs p = Some (File c)"
proof -
  let ?order = "completion_order picks fs"
  let ?H = "\<lambda>p. the (fingerprint sha fs p)"
  let ?E = "Map.empty :: digest \<rightharpoonup> path"
  have futures: "as_completed picks (map (calculate_sha256 sha fs) (candidates fs)) =
                 map (calculate_sha256 sha fs) ?order"
    by (simp add: as_completed_map completion_order_def)
  have set_order: "set ?order = set (candidates fs)"
    by (simp add: completion_order_def as_completed_set)
  have loop: "dedup_loop Map.empty fs (map (calculate_sha256 sha fs) ?order) = Inr fs'"
    using run futures by (simp add: enterprise_deduplication_def)
  have readable: "\<exists>c. map_of fs p = Some (File c) \<and> calculate_sha256 sha fs p = Inr (p, ?H p)"
    if "p \<in> set ?order" for p
  proof -
    from that have "calculate_sha256 sha fs p \<in> set (map (calculate_sha256 sha fs) ?order)"
      by simp
    from dedup_loop_results[OF loop this] obtain q h
      where "calculate_sha256 sha fs p = Inr (q, h)" by blast
    from calculate_sha256_Inr[OF this] show ?thesis
      by (auto simp: calculate_sha256_def)
  qed
  then show "\<forall>p\<in>set (candidates fs). \<exists>c. map_of fs p = Some (File c)"
    using set_order by blast
  have eq: "map (calculate_sha256 sha fs) ?order = map (\<lambda>p. Inr (p, ?H p)) ?order"
    using readable by (intro map_cong) auto
  have dist: "distinct ?order"
    using wf by (simp add: completion_order_def as_completed_distinct candidates_distinct)
  have files: "\<forall>p\<in>set ?order. isfile fs p"
    using set_order candidates_isfile by blast
  have fp: "fingerprint sha fs p = Some (?H p)" if "p \<in> set ?order" for p
    using readable[OF that] by (auto simp: fingerprint_def)
  have dup: "p \<in> set (duplicates sha picks fs) \<longleftrightarrow>
             p \<in> set ?order \<and> ?H p \<in> dom ?E \<union> ?H ` set (takeWhile (\<lambda>q. q \<noteq> p) ?order)" for p
  proof (cases "p \<in> set ?order")
    case True
    have sub: "q \<in> set ?order" if "q \<in> set (takeWhile (\<lambda>q. q \<noteq> p) ?order)" for q
      using that by (rule set_takeWhileD[THEN conjunct1])
    show ?thesis
      using True fp[OF True] fp[OF sub]
      by (auto simp: duplicates_def earlier_def list_ex_iff image_iff) (metis option.sel)+
  next
    case False
    then show ?thesis by (simp add: duplicates_def)
  qed
  have "Inr fs' = dedup_loop Map.empty fs (map (\<lambda>p. Inr (p, ?H p)) ?order)"
    using loop eq by simp
  also have "\<dots> = Inr (filter (\<lambda>(p, n). \<not> (p \<in> set ?order \<and>
        ?H p \<in> dom ?E \<union> ?H ` set (takeWhile (\<lambda>q. q \<noteq> p) ?order))) fs)"
    by (rule dedup_loop_filter[OF dist files])
  also have "\<dots> = Inr (filter (\<lambda>(p, n). p \<notin> set (duplicates sha picks fs)) fs)"
    using dup by (auto intro!: filter_cong)
  finally show "fs' = filter (\<lambda>(p, n). p \<notin> set (duplicates sha picks fs)) fs"
    by simp
qed

lemma dedup_unique:
  assumes wf: "distinct (map fst fs)"
      and run: "enterprise_deduplication sha picks fs = Inr fs'"
      and p: "p \<in> set (candidates fs')" and q: "q \<in> set (candidates fs')" and ne: "p \<noteq> q"
  shows "fingerprint sha fs' p \<noteq> fingerprint sha fs' q"
proof -
  let ?order = "completion_order picks fs"
  let ?D = "duplicates sha picks fs"
  note res = dedup_result[OF wf run]
  have cand: "candidates fs' = filter (\<lambda>p. p \<notin> set ?D) (candidates fs)"
    unfolding res(1) by (rule candidates_filter_key)
  have set_order: "set ?order = set (candidates fs)"
    by (simp add: completion_order_def as_completed_set)
  from p q cand have pin: "p \<in> set ?order" "p \<notin> set ?D" and qin: "q \<in> set ?order" "q \<notin> set ?D"
    using set_order by auto
  have fp: "fingerprint sha fs' r = fingerprint sha fs r" if "r \<notin> set ?D" for r
    unfolding res(1) using that by (simp add: fingerprint_filter_key)
  from before_or_after[OF pin(1) qin(1) ne]
  show ?thesis
  proof
    assume "p \<in> set (takeWhile (\<lambda>r. r \<noteq> q) ?order)"
    with qin have "fingerprint sha fs p \<noteq> fingerprint sha fs q"
      by (auto simp: duplicates_def earlier_def list_ex_iff)
    then show ?thesis using fp pin qin by simp
  next
    assume "q \<in> set (takeWhile (\<lambda>r. r \<noteq> p) ?order)"
    with pin have "fingerprint sha fs q \<noteq> fingerprint sha fs p"
      by (auto simp: duplicates_def earlier_def list_ex_iff)
    then show ?thesis using fp pin qin by simp
  qed
qed


text \<open>
  C10. When the deduplication stage completes, it has removed from the working copies
  exactly the rule files that completed their hash after another file of the same
  fingerprint, and has changed nothing else; among the rule files that remain below
  \<^verbatim>\<open>clone-templates\<close> no two have the same fingerprint. The survivor of a fingerprint is
  the file whose hash completed first.
\<close>

theorem dedup_keeps_first_completed:
  assumes "distinct (map fst fs)"
      and "enterprise_deduplication sha picks fs = Inr fs'"
  shows "fs' = filter (\<lambda>(p, n). p \<notin> set (duplicates sha picks fs)) fs \<and>
         (\<forall>p\<in>set (candidates fs'). \<forall>q\<in>set (candidates fs').
            p \<noteq> q \<longrightarrow> fingerprint sha fs' p \<noteq> fingerprint sha fs' q)"
  using dedup_result(1)[OF assms] dedup_unique[OF assms] by blast

lemmas scenario_simps =
  CLONE_DIR_def POC_DIR_def TMP_DIR_def INDEX_FILE_def walk_def candidates_def is_rule_file_def
  basename_def dirname_def suffix_to_prefix isfile_def isdir_def os_remove_def
  calculate_sha256_def fingerprint_def plain_digest_def

lemma dup_tree_first_wins:
  "enterprise_deduplication plain_digest [] dup_tree =
     Inr [([''clone-templates'', ''r1'', ''x.yaml''], File ''A''),
          ([''clone-templates'', ''r2'', ''y.yml''], File ''B''),
          ([''clone-templates'', ''r2'', ''README.md''], File ''A'')]"
  by (simp add: enterprise_deduplication_def dup_tree_def scenario_simps)

lemma dup_tree_second_wins:
  "enterprise_deduplication plain_digest [1] dup_tree =
     Inr [([''clone-templates'', ''r2'', ''x.yaml''], File ''A''),
          ([''clone-templates'', ''r2'', ''y.yml''], File ''B''),
          ([''clone-templates'', ''r2'', ''README.md''], File ''A'')]"
  by (simp add: enterprise_deduplication_def dup_tree_def scenario_simps)

theorem dedup_keeps_first_completed_witness:
  "distinct (map fst dup_tree) \<and>
   enterprise_deduplication plain_digest [1] dup_tree =
     Inr [([''clone-templates'', ''r2'', ''x.yaml''], File ''A''),
          ([''clone-templates'', ''r2'', ''y.yml''], File ''B''),
          ([''clone-templates'', ''r2'', ''README.md''], File ''A'')] \<and>
   duplicates plain_digest [1] dup_tree = [[''clone-templates'', ''r1'', ''x.yaml'']] \<and>
   fingerprint plain_digest
     [([''clone-templates'', ''r2'', ''x.yaml''], File ''A''),
      ([''clone-templates'', ''r2'', ''y.yml''], File ''B''),
      ([''clone-templates'', ''r2'', ''README.md''], File ''A'')] [''clone-templates'', ''r2'', ''x.yaml'']
   \<noteq> fingerprint plain_digest
     [([''clone-templates'', ''r2'', ''x.yaml''], File ''A''),
      ([''clone-templates'', ''r2'', ''y.yml''], File ''B''),
      ([''clone-templates'', ''r2'', ''README.md''], File ''A'')] [''clone-templates'', ''r2'', ''y.yml'']"
proof -
  have wf: "distinct (map fst dup_tree)"
    by (simp add: dup_tree_def)
  have dups: "duplicates plain_digest [1] dup_tree = [[''clone-templates'', ''r1'', ''x.yaml'']]"
    by (simp add: duplicates_def completion_order_def earlier_def dup_tree_def scenario_simps)
  from dedup_keeps_first_completed[OF wf dup_tree_second_wins] wf dup_tree_second_wins dups
  show ?thesis
    by (simp add: scenario_simps dup_tree_def)
qed

subsection \<open>Retries of one synchronisation\<close>

lemma git_retries_3:
  "async_git_ops ex run = git_retries ex run [0, 1, 2]"
  by (simp add: async_git_ops_def upt_rec numeral_2_eq_2)

text \<open>
  C7. The claim asks for a sleep of \<open>2 ^ k\<close> seconds after the failed attempt \<open>k\<close>, that
  is 1, 2 and 4 seconds when all three attempts fail. The function does so when \<^verbatim>\<open>git\<close>
  returns a non-zero code: with 128 each time the attempts are followed by sleeps of 1, 2
  and 4 seconds. It does not when the attempt raises: where \<^verbatim>\<open>git\<close> cannot be started
  each of the three attempts raises, is reported, and is followed at once by the next
  one; the function never sleeps.
\<close>

theorem git_missing_no_backoff:
  "async_git_ops no_working_copy git_missing =
     [Attempt Clone, Print, Attempt Clone, Print, Attempt Clone, Print] \<and>
   async_git_ops no_working_copy git_exits_128 =
     [Attempt Clone, Sleep 1, Attempt Clone, Sleep 2, Attempt Clone, Sleep 4]"
  by (simp add: git_retries_3 no_working_copy_def git_missing_def git_exits_128_def)

subsection \<open>Batches of the dispatch loop\<close>

lemma in_flight_append: "in_flight (xs @ ys) = in_flight xs + in_flight ys"
  by (induction xs rule: in_flight.induct) simp_all

lemma in_flight_dispatch: "in_flight (map Dispatch xs) = int (length xs)"
  by (induction xs) simp_all

lemma in_flight_complete: "in_flight (map Complete xs) = - int (length xs)"
  by (induction xs) simp_all

lemma as_completed_length: "length (as_completed picks xs) = length xs"
  using as_completed_mset[of picks xs] by (metis size_mset)

lemma in_flight_gather: "in_flight (gather picks batch) = 0"
  by (simp add: gather_def in_flight_append in_flight_dispatch in_flight_complete as_completed_length)

lemma in_flight_gather_prefix:
  assumes "prefix pre (gather picks batch)"
  shows "0 \<le> in_flight pre \<and> in_flight pre \<le> int (length batch)"
proof -
  let ?cs = "as_completed picks batch"
  from assms have "prefix pre (map Dispatch batch @ map Complete ?cs)"
    by (simp add: gather_def)
  then consider (d) "prefix pre (map Dispatch batch)"
    | (c) us where "pre = map Dispatch batch @ us" "prefix us (map Complete ?cs)"
    by (auto simp: prefix_append)
  then show ?thesis
  proof cases
    case d
    then obtain k where "pre = take k (map Dispatch batch)"
      by (metis prefix_def append_eq_conv_conj)
    then have "pre = map Dispatch (take k batch)" by (simp add: take_map)
    then show ?thesis by (simp add: in_flight_dispatch)
  next
    case c
    then obtain k where "us = take k (map Complete ?cs)"
      by (metis prefix_def append_eq_conv_conj)
    then have us: "us = map Complete (take k ?cs)" by (simp add: take_map)
    have "length (take k ?cs) \<le> length batch"
      by (simp add: as_completed_length)
    then show ?thesis
      unfolding c(1) us by (simp add: in_flight_append in_flight_dispatch in_flight_complete)
  qed
qed

lemma in_flight_concat_zero:
  "\<forall>seg\<in>set segs. in_flight seg = 0 \<Longrightarrow> in_flight (concat segs) = 0"
  by (induction segs) (simp_all add: in_flight_append)

lemma in_flight_concat_prefix:
  assumes "\<forall>seg\<in>set segs. in_flight seg = 0"
      and "\<forall>seg\<in>set segs. \<forall>pre. prefix pre seg \<longrightarrow> 0 \<le> in_flight pre \<and> in_flight pre \<le> b"
      and "0 \<le> b"
      and "prefix pre (concat segs)"
  shows "0 \<le> in_flight pre \<and> in_flight pre \<le> b"
  using assms
proof (induction segs arbitrary: pre)
  case Nil
  then show ?case by simp
next
  case (Cons seg segs)
  from Cons.prems(4) have "prefix pre (seg @ concat segs)" by simp
  then consider (a) "prefix pre seg"
    | (b) us where "pre = seg @ us" "prefix us (concat segs)"
    by (auto simp: prefix_append)
  then show ?case
  proof cases
    case a
    with Cons.prems(2) show ?thesis by simp
  next
    case b
    have "0 \<le> in_flight us \<and> in_flight us \<le> b"
      using Cons.IH[of us] Cons.prems b(2) by simp
    moreover have "in_flight seg = 0" using Cons.prems(1) by simp
    ultimately show ?thesis unfolding b(1) by (simp add: in_flight_append)
  qed
qed

lemma concat_slices_take:
  "concat (map (\<lambda>k. slice xs (k * n) n) [0..<m]) = take (m * n) xs"
proof (induction m)
  case 0
  then show ?case by simp
next
  case (Suc m)
  have "take (m * n + n) xs = take (m * n) xs @ take n (drop (m * n) xs)"
    by (simp add: take_add)
  with Suc show ?case by (simp add: slice_def add.commute)
qed

lemma ceil_div_covers: "0 < n \<Longrightarrow> (len::nat) \<le> (len + n - 1) div n * n"
proof -
  assume n: "0 < n"
  have a: "(len + n - 1) div n * n + (len + n - 1) mod n = len + n - 1"
    by (rule div_mult_mod_eq)
  have b: "(len + n - 1) mod n < n"
    using n by (rule mod_less_divisor)
  from a b n show ?thesis by linarith
qed

lemma concat_sync_batches: "0 < n \<Longrightarrow> concat (sync_batches n urls) = urls"
  using ceil_div_covers[of n "length urls"]
  by (simp add: sync_batches_def concat_slices_take)

lemma sync_batches_length:
  "b \<in> set (sync_batches n urls) \<Longrightarrow> length b \<le> n"
  by (auto simp: sync_batches_def slice_def)

lemma sync_batches_nonempty:
  assumes "0 < n" "b \<in> set (sync_batches n urls)"
  shows "b \<noteq> []"
proof -
  from assms obtain k where k: "k < (length urls + n - 1) div n" "b = slice urls (k * n) n"
    by (auto simp: sync_batches_def)
  have "k * n < length urls"
  proof (rule ccontr)
    assume "\<not> k * n < length urls"
    then have "length urls \<le> k * n" by simp
    then have "length urls + n - 1 < (k + 1) * n" using assms(1) by simp
    then have "(length urls + n - 1) div n < k + 1"
      using assms(1) by (simp add: div_less_iff_less_mult)
    with k(1) show False by simp
  qed
  then show ?thesis using k(2) assms(1) by (simp add: slice_def)
qed

lemma sync_batches_full:
  assumes "i < length (sync_batches n urls)" "Suc i < length (sync_batches n urls)"
  shows "length (sync_batches n urls ! i) = n"
proof -
  let ?m = "(length urls + n - 1) div n"
  from assms have i: "Suc i < ?m" by (simp add: sync_batches_def)
  have n: "0 < n" using i by (cases n) auto
  have "(Suc i) * n < length urls"
  proof (rule ccontr)
    assume "\<not> Suc i * n < length urls"
    then have "length urls + n - 1 < (Suc i + 1) * n" using n by simp
    then have "?m < Suc i + 1" using n by (simp add: div_less_iff_less_mult)
    with i show False by simp
  qed
  then have "i * n + n \<le> length urls" by simp
  moreover have "sync_batches n urls ! i = slice urls (i * n) n"
    using assms(1) by (simp add: sync_batches_def)
  ultimately show ?thesis by (simp add: slice_def)
qed

lemma dynamic_repo_discovery_batches:
  assumes "ENABLE_STAGE1 c" "0 < GIT_PARALLEL c"
  shows "dynamic_repo_discovery picks c urls =
         Inr (concat (map (\<lambda>k. gather (picks (k * nat (GIT_PARALLEL c * 2)))
                                  (sync_batches (nat (GIT_PARALLEL c * 2)) urls ! k))
                          [0..<length (sync_batches (nat (GIT_PARALLEL c * 2)) urls)]))"
proof -
  let ?n = "nat (GIT_PARALLEL c * 2)"
  let ?m = "(length urls + ?n - 1) div ?n"
  have "map (\<lambda>k. gather (picks (k * ?n)) (sync_batches ?n urls ! k)) [0..<length (sync_batches ?n urls)]
      = map (\<lambda>k. gather (picks (k * ?n)) (slice urls (k * ?n) ?n)) [0..<?m]"
    by (rule map_cong) (simp_all add: sync_batches_def)
  then show ?thesis
    using assms
    by (simp add: dynamic_repo_discovery_def py_range_def Let_def comp_def)
qed


text \<open>
  C8. With the synchronisation stage enabled and a positive parallelism \<open>P\<close>, the dispatch
  loop cuts the operations into consecutive batches of \<open>2P\<close> (the last one may be shorter,
  none is empty), runs them batch after batch, has nothing in flight whenever a batch ends,
  and never has more than \<open>2P\<close> operations in flight.
\<close>

theorem sync_in_batches:
  assumes "ENABLE_STAGE1 c" and "0 < GIT_PARALLEL c"
  shows "concat (sync_batches (nat (GIT_PARALLEL c * 2)) urls) = urls \<and>
         (\<forall>b\<in>set (sync_batches (nat (GIT_PARALLEL c * 2)) urls).
            b \<noteq> [] \<and> int (length b) \<le> 2 * GIT_PARALLEL c) \<and>
         (\<forall>i. Suc i < length (sync_batches (nat (GIT_PARALLEL c * 2)) urls) \<longrightarrow>
            int (length (sync_batches (nat (GIT_PARALLEL c * 2)) urls ! i)) = 2 * GIT_PARALLEL c) \<and>
         dynamic_repo_discovery picks c urls =
           Inr (concat (map (\<lambda>k. gather (picks (k * nat (GIT_PARALLEL c * 2)))
                                    (sync_batches (nat (GIT_PARALLEL c * 2)) urls ! k))
                            [0..<length (sync_batches (nat (GIT_PARALLEL c * 2)) urls)])) \<and>
         (\<forall>m \<le> length (sync_batches (nat (GIT_PARALLEL c * 2)) urls).
            in_flight (concat (map (\<lambda>k. gather (picks (k * nat (GIT_PARALLEL c * 2)))
                                          (sync_batches (nat (GIT_PARALLEL c * 2)) urls ! k))
                                  [0..<m])) = 0) \<and>
         (\<forall>events pre. dynamic_repo_discovery picks c urls = Inr events \<longrightarrow> prefix pre events \<longrightarrow>
            0 \<le> in_flight pre \<and> in_flight pre \<le> 2 * GIT_PARALLEL c)"
proof -
  let ?n = "nat (GIT_PARALLEL c * 2)"
  let ?bs = "sync_batches ?n urls"
  let ?seg = "\<lambda>k. gather (picks (k * ?n)) (?bs ! k)"
  have n: "0 < ?n" and n2: "int ?n = 2 * GIT_PARALLEL c"
    using assms(2) by simp_all
  have part: "concat ?bs = urls"
    by (rule concat_sync_batches[OF n])
  have sizes: "\<forall>b\<in>set ?bs. b \<noteq> [] \<and> int (length b) \<le> 2 * GIT_PARALLEL c"
  proof
    fix b assume b: "b \<in> set ?bs"
    have "length b \<le> ?n" by (rule sync_batches_length[OF b])
    then have "int (length b) \<le> int ?n" by (simp only: of_nat_le_iff)
    then have "int (length b) \<le> 2 * GIT_PARALLEL c" by (simp only: n2)
    with sync_batches_nonempty[OF n b] show "b \<noteq> [] \<and> int (length b) \<le> 2 * GIT_PARALLEL c"
      by (rule conjI)
  qed
  have full: "\<forall>i. Suc i < length ?bs \<longrightarrow> int (length (?bs ! i)) = 2 * GIT_PARALLEL c"
  proof (intro allI impI)
    fix i assume i: "Suc i < length ?bs"
    then have "i < length ?bs" by simp
    from sync_batches_full[OF this i] have "int (length (?bs ! i)) = int ?n"
      by (simp only:)
    then show "int (length (?bs ! i)) = 2 * GIT_PARALLEL c"
      by (simp only: n2)
  qed
  have run: "dynamic_repo_discovery picks c urls = Inr (concat (map ?seg [0..<length ?bs]))"
    by (rule dynamic_repo_discovery_batches[OF assms])
  have zero: "\<forall>m \<le> length ?bs. in_flight (concat (map ?seg [0..<m])) = 0"
    by (auto intro!: in_flight_concat_zero simp: in_flight_gather)
  have bound: "0 \<le> in_flight pre \<and> in_flight pre \<le> 2 * GIT_PARALLEL c"
    if "prefix pre (concat (map ?seg [0..<length ?bs]))" for pre
  proof (rule in_flight_concat_prefix[OF _ _ _ that])
    show "\<forall>seg\<in>set (map ?seg [0..<length ?bs]). in_flight seg = 0"
      by (auto simp: in_flight_gather)
    show "\<forall>seg\<in>set (map ?seg [0..<length ?bs]). \<forall>pre. prefix pre seg \<longrightarrow>
            0 \<le> in_flight pre \<and> in_flight pre \<le> 2 * GIT_PARALLEL c"
    proof (intro ballI allI impI)
      fix seg pre assume seg: "seg \<in> set (map ?seg [0..<length ?bs])" and pre: "prefix pre seg"
      from seg obtain k where k: "k < length ?bs" "seg = ?seg k" by auto
      from in_flight_gather_prefix[OF pre[unfolded k(2)]]
      have "0 \<le> in_flight pre \<and> in_flight pre \<le> int (length (?bs ! k))" .
      moreover have "int (length (?bs ! k)) \<le> 2 * GIT_PARALLEL c"
        using sizes k(1) nth_mem by blast
      ultimately show "0 \<le> in_flight pre \<and> in_flight pre \<le> 2 * GIT_PARALLEL c" by simp
    qed
    show "0 \<le> 2 * GIT_PARALLEL c" using assms(2) by simp
  qed
  have last: "\<forall>events pre. dynamic_repo_discovery picks c urls = Inr events \<longrightarrow> prefix pre events \<longrightarrow>
            0 \<le> in_flight pre \<and> in_flight pre \<le> 2 * GIT_PARALLEL c"
  proof (intro allI impI)
    fix events pre
    assume "dynamic_repo_discovery picks c urls = Inr events" and pre: "prefix pre events"
    with run have "events = concat (map ?seg [0..<length ?bs])" by simp
    with pre have "prefix pre (concat (map ?seg [0..<length ?bs]))" by simp
    then show "0 \<le> in_flight pre \<and> in_flight pre \<le> 2 * GIT_PARALLEL c" by (rule bound)
  qed
  show ?thesis
    by (intro conjI part sizes full run zero last)
qed

lemma five_urls_batches:
  "sync_batches 2 five_urls = [[''u1'', ''u2''], [''u3'', ''u4''], [''u5'']]"
  by code_simp

lemma five_urls_events:
  "dynamic_repo_discovery last_first small_config five_urls =
     Inr [Dispatch ''u1'', Dispatch ''u2'', Complete ''u2'', Complete ''u1'',
          Dispatch ''u3'', Dispatch ''u4'', Complete ''u4'', Complete ''u3'',
          Dispatch ''u5'', Complete ''u5'']"
  by code_simp

theorem sync_in_batches_witness:
  "ENABLE_STAGE1 small_config \<and> 0 < GIT_PARALLEL small_config \<and>
   sync_batches (nat (GIT_PARALLEL small_config * 2)) five_urls =
     [[''u1'', ''u2''], [''u3'', ''u4''], [''u5'']] \<and>
   dynamic_repo_discovery last_first small_config five_urls =
     Inr [Dispatch ''u1'', Dispatch ''u2'', Complete ''u2'', Complete ''u1'',
          Dispatch ''u3'', Dispatch ''u4'', Complete ''u4'', Complete ''u3'',
          Dispatch ''u5'', Complete ''u5''] \<and>
   prefix [Dispatch ''u1'', Dispatch ''u2'', Complete ''u2'', Complete ''u1'', Dispatch ''u3'', Dispatch ''u4'']
     [Dispatch ''u1'', Dispatch ''u2'', Complete ''u2'', Complete ''u1'',
      Dispatch ''u3'', Dispatch ''u4'', Complete ''u4'', Complete ''u3'',
      Dispatch ''u5'', Complete ''u5''] \<and>
   in_flight [Dispatch ''u1'', Dispatch ''u2'', Complete ''u2'', Complete ''u1'', Dispatch ''u3'', Dispatch ''u4'']
     \<le> 2 * GIT_PARALLEL small_config"
proof -
  have e: "ENABLE_STAGE1 small_config" and p: "0 < GIT_PARALLEL small_config"
    by (simp_all add: small_config_def)
  have n: "nat (GIT_PARALLEL small_config * 2) = 2"
    by (simp add: small_config_def)
  have pre: "prefix [Dispatch ''u1'', Dispatch ''u2'', Complete ''u2'', Complete ''u1'', Dispatch ''u3'', Dispatch ''u4'']
     [Dispatch ''u1'', Dispatch ''u2'', Complete ''u2'', Complete ''u1'',
      Dispatch ''u3'', Dispatch ''u4'', Complete ''u4'', Complete ''u3'',
      Dispatch ''u5'', Complete ''u5'']"
    by simp
  note all = sync_in_batches[OF e p, of five_urls last_first]
  note bound = all[THEN conjunct2, THEN conjunct2, THEN conjunct2, THEN conjunct2, THEN conjunct2,
      rule_format, OF five_urls_events pre, THEN conjunct2]
  have batches: "sync_batches (nat (GIT_PARALLEL small_config * 2)) five_urls =
     [[''u1'', ''u2''], [''u3'', ''u4''], [''u5'']]"
    by (simp only: n five_urls_batches)
  show ?thesis
    by (intro conjI e p batches five_urls_events pre bound)
qed

subsection \<open>Facts about the file system\<close>

lemma isfile_iff: "isfile fs p \<longleftrightarrow> p \<in> fst ` set fs"
  by (simp add: isfile_def map_of_eq_None_iff)

lemma walk_set: "set (walk d fs) = {p. isfile fs p \<and> strict_prefix d p}"
  by (auto simp: walk_def isfile_iff)

lemma isdir_iff: "isdir fs d \<longleftrightarrow> (\<exists>p. isfile fs p \<and> strict_prefix d p)"
  by (auto simp: isdir_def list_ex_iff isfile_iff)

lemma rmtree_key: "rmtree d fs = filter (\<lambda>(p, n). \<not> strict_prefix d p) fs"
  by (simp add: rmtree_def)

lemma map_of_rmtree:
  "map_of (rmtree d fs) p = (if strict_prefix d p then None else map_of fs p)"
  unfolding rmtree_def by (simp add: map_of_filter_key)

lemma walk_rmtree_same: "walk d (rmtree d fs) = []"
  unfolding rmtree_def walk_filter_key by (simp add: walk_def)

lemma walk_rmtree_other:
  "\<not> prefix e d \<Longrightarrow> \<not> prefix d e \<Longrightarrow> walk e (rmtree d fs) = walk e fs"
proof -
  assume a: "\<not> prefix e d" "\<not> prefix d e"
  have "\<not> strict_prefix d p" if "strict_prefix e p" for p
  proof
    assume "strict_prefix d p"
    with that have "prefix d p" "prefix e p" by (simp_all add: strict_prefix_def)
    then have "prefix d e \<or> prefix e d" by (rule prefix_same_cases)
    with a show False by blast
  qed
  then have "\<forall>x\<in>set (walk e fs). \<not> strict_prefix d x"
    by (simp add: walk_def)
  then have "filter (\<lambda>x. \<not> strict_prefix d x) (walk e fs) = walk e fs"
    by (rule filter_True)
  then show ?thesis
    unfolding rmtree_def walk_filter_key .
qed

subsection \<open>Interrupts and exit status\<close>

lemma run_stages_no_interrupt:
  "run_stages None sts fs \<noteq> Inl (KeyboardInterrupt, t)"
  by (induction sts arbitrary: fs) (auto split: sum.splits)

lemma run_stages_interrupt:
  "run_stages (Some (k, so_far)) sts fs = Inl (KeyboardInterrupt, t) \<longleftrightarrow>
     k < length sts \<and> (\<exists>s. run_stages None (take k sts) fs = Inr s \<and> t = so_far s)"
proof (induction sts arbitrary: k fs)
  case Nil
  then show ?case by simp
next
  case (Cons st sts)
  show ?case
  proof (cases k)
    case 0
    then show ?thesis by auto
  next
    case (Suc j)
    show ?thesis
    proof (cases "st fs")
      case (Inl e)
      with Suc show ?thesis by simp
    next
      case (Inr fs')
      with Suc Cons.IH[of j fs'] show ?thesis by simp
    qed
  qed
qed

lemma main_Interrupted:
  "main w file fs = Interrupted s' \<longleftrightarrow>
     (\<exists>c fs0 t. load_config file = Inr c \<and> init_workspace fs = Inr fs0 \<and>
        run_stages (sigint w) (stages w c) fs0 = Inl (KeyboardInterrupt, t) \<and>
        s' = rmtree TMP_DIR t)"
  by (auto simp: main_def on_interrupt_def split: sum.splits abort.splits prod.splits)

lemma not_isdir_rmtree: "\<not> isdir (rmtree d fs) d"
  by (auto simp: isdir_def rmtree_def list_ex_iff)

text \<open>
  C6. Let the configuration load and the workspace be initialised, and let a
  \<^verbatim>\<open>KeyboardInterrupt\<close> arrive in one of the five stages, the stages before it having run
  to their end. Then the run ends in the interrupt handler: the tree it leaves is the tree
  the interrupted stage left with everything below \<^verbatim>\<open>.tmp\<close> removed, so that no file and no
  directory remains below \<^verbatim>\<open>.tmp\<close>; every path outside \<^verbatim>\<open>.tmp\<close>, in particular every file of
  the corpus and of the working copies, is as the interrupt found it; the exit status is
  1. Conversely a run ends in the handler only in this way. The exit status is 0 exactly
  when the run completes.
\<close>

theorem interrupt_discards_staging:
  "(\<forall>c fs0 k so_far s.
      load_config file = Inr c \<and> init_workspace fs = Inr fs0 \<and>
      sigint w = Some (k, so_far) \<and> k < 5 \<and>
      run_stages None (take k (stages w c)) fs0 = Inr s \<longrightarrow>
      main w file fs = Interrupted (rmtree TMP_DIR (so_far s)) \<and>
      exit_status (main w file fs) = 1 \<and>
      walk TMP_DIR (rmtree TMP_DIR (so_far s)) = [] \<and>
      \<not> isdir (rmtree TMP_DIR (so_far s)) TMP_DIR \<and>
      (\<forall>p. \<not> strict_prefix TMP_DIR p \<longrightarrow>
         map_of (rmtree TMP_DIR (so_far s)) p = map_of (so_far s) p) \<and>
      walk POC_DIR (rmtree TMP_DIR (so_far s)) = walk POC_DIR (so_far s) \<and>
      walk CLONE_DIR (rmtree TMP_DIR (so_far s)) = walk CLONE_DIR (so_far s)) \<and>
   (\<forall>s'. main w file fs = Interrupted s' \<longrightarrow>
      (\<exists>c fs0 k so_far s.
         load_config file = Inr c \<and> init_workspace fs = Inr fs0 \<and>
         sigint w = Some (k, so_far) \<and> k < 5 \<and>
         run_stages None (take k (stages w c)) fs0 = Inr s \<and>
         s' = rmtree TMP_DIR (so_far s))) \<and>
   (exit_status (main w file fs) = 0 \<longleftrightarrow> (\<exists>s n. main w file fs = Completed s n))"
proof (intro conjI allI impI)
  fix c fs0 k so_far s
  assume a: "load_config file = Inr c \<and> init_workspace fs = Inr fs0 \<and>
      sigint w = Some (k, so_far) \<and> k < 5 \<and>
      run_stages None (take k (stages w c)) fs0 = Inr s"
  have len: "length (stages w c) = 5" by (simp add: stages_def)
  from a len have "run_stages (sigint w) (stages w c) fs0 = Inl (KeyboardInterrupt, so_far s)"
    by (simp add: run_stages_interrupt)
  with a show m: "main w file fs = Interrupted (rmtree TMP_DIR (so_far s))"
    unfolding main_Interrupted by blast
  show "exit_status (main w file fs) = 1"
    unfolding m by (simp add: exit_status_def)
  show "walk TMP_DIR (rmtree TMP_DIR (so_far s)) = []"
    by (rule walk_rmtree_same)
  show "\<not> isdir (rmtree TMP_DIR (so_far s)) TMP_DIR"
    by (rule not_isdir_rmtree)
  show "walk POC_DIR (rmtree TMP_DIR (so_far s)) = walk POC_DIR (so_far s)"
    by (rule walk_rmtree_other) (simp_all add: POC_DIR_def TMP_DIR_def)
  show "walk CLONE_DIR (rmtree TMP_DIR (so_far s)) = walk CLONE_DIR (so_far s)"
    by (rule walk_rmtree_other) (simp_all add: CLONE_DIR_def TMP_DIR_def)
  fix p assume "\<not> strict_prefix TMP_DIR p"
  then show "map_of (rmtree TMP_DIR (so_far s)) p = map_of (so_far s) p"
    by (simp add: map_of_rmtree)
next
  fix s' assume "main w file fs = Interrupted s'"
  then obtain c fs0 t where c: "load_config file = Inr c" and i: "init_workspace fs = Inr fs0"
    and r: "run_stages (sigint w) (stages w c) fs0 = Inl (KeyboardInterrupt, t)"
    and s': "s' = rmtree TMP_DIR t"
    unfolding main_Interrupted by blast
  have len: "length (stages w c) = 5" by (simp add: stages_def)
  show "\<exists>c fs0 k so_far s.
         load_config file = Inr c \<and> init_workspace fs = Inr fs0 \<and>
         sigint w = Some (k, so_far) \<and> k < 5 \<and>
         run_stages None (take k (stages w c)) fs0 = Inr s \<and>
         s' = rmtree TMP_DIR (so_far s)"
  proof (cases "sigint w")
    case None
    with r run_stages_no_interrupt show ?thesis by simp
  next
    case (Some i)
    obtain k so_far where i: "i = (k, so_far)" by (cases i)
    from r[unfolded Some i run_stages_interrupt] len
    obtain s where "k < 5" "run_stages None (take k (stages w c)) fs0 = Inr s" "t = so_far s"
      by auto
    with c \<open>init_workspace fs = Inr fs0\<close> Some i s' show ?thesis by blast
  qed
next
  show "exit_status (main w file fs) = 0 \<longleftrightarrow> (\<exists>s n. main w file fs = Completed s n)"
    by (cases "main w file fs") (simp_all add: exit_status_def)
qed

lemma two_tag_before_interrupt:
  "run_stages None (take 3 (stages interrupted_world small_config))
       [([''clone-templates'', ''r1'', ''x.yaml''], File ''tags: [RCE, cve]'')] =
     Inr [([''clone-templates'', ''r1'', ''x.yaml''], File ''tags: [RCE, cve]''),
          ([''.tmp'', ''rce'', ''x.yaml''], File ''tags: [RCE, cve]''),
          ([''.tmp'', ''cve'', ''x.yaml''], File ''tags: [RCE, cve]'')]"
  by code_simp

lemma two_tag_init:
  "init_workspace two_tag_tree =
     Inr [([''clone-templates'', ''r1'', ''x.yaml''], File ''tags: [RCE, cve]'')]"
  by code_simp

lemma two_tag_handler:
  "rmtree TMP_DIR (first_move_done
       [([''clone-templates'', ''r1'', ''x.yaml''], File ''tags: [RCE, cve]''),
        ([''.tmp'', ''rce'', ''x.yaml''], File ''tags: [RCE, cve]''),
        ([''.tmp'', ''cve'', ''x.yaml''], File ''tags: [RCE, cve]'')]) =
     [([''clone-templates'', ''r1'', ''x.yaml''], File ''tags: [RCE, cve]''),
      ([''poc'', ''rce'', ''x.yaml''], File ''tags: [RCE, cve]'')]"
  by code_simp

theorem interrupt_discards_staging_witness:
  "main interrupted_world (Some small_config) two_tag_tree =
     Interrupted [([''clone-templates'', ''r1'', ''x.yaml''], File ''tags: [RCE, cve]''),
                  ([''poc'', ''rce'', ''x.yaml''], File ''tags: [RCE, cve]'')] \<and>
   exit_status (main interrupted_world (Some small_config) two_tag_tree) = 1 \<and>
   walk TMP_DIR [([''clone-templates'', ''r1'', ''x.yaml''], File ''tags: [RCE, cve]''),
                 ([''poc'', ''rce'', ''x.yaml''], File ''tags: [RCE, cve]'')] = []"
proof -
  have hyp: "load_config (Some small_config) = Inr small_config \<and>
      init_workspace two_tag_tree =
        Inr [([''clone-templates'', ''r1'', ''x.yaml''], File ''tags: [RCE, cve]'')] \<and>
      sigint interrupted_world = Some (3, first_move_done) \<and> (3::nat) < 5 \<and>
      run_stages None (take 3 (stages interrupted_world small_config))
          [([''clone-templates'', ''r1'', ''x.yaml''], File ''tags: [RCE, cve]'')] =
        Inr [([''clone-templates'', ''r1'', ''x.yaml''], File ''tags: [RCE, cve]''),
             ([''.tmp'', ''rce'', ''x.yaml''], File ''tags: [RCE, cve]''),
             ([''.tmp'', ''cve'', ''x.yaml''], File ''tags: [RCE, cve]'')]"
    using two_tag_before_interrupt two_tag_init
    by (simp add: load_config_def interrupted_world_def quiet_world_def)
  note all = interrupt_discards_staging[of "Some small_config" two_tag_tree interrupted_world,
      THEN conjunct1, rule_format, OF hyp, unfolded two_tag_handler]
  from all show ?thesis by (intro conjI) (rule all[THEN conjunct1], rule all[THEN conjunct2, THEN conjunct1],
      rule all[THEN conjunct2, THEN conjunct2, THEN conjunct1])
qed

subsection \<open>Validation and migration\<close>

lemma validate_poc_file:
  "map_of fs path = Some n \<Longrightarrow>
   validate_poc check fs path =
     Inr (if check 120 path (Some n) = Exited 0 then fs else AList.delete path fs)"
  by (auto simp: validate_poc_def os_remove_def isfile_def split: proc_result.splits)

lemma validate_batch_filter:
  assumes "distinct paths" and "\<forall>p\<in>set paths. isfile fs p"
  shows "validate_batch check fs paths =
         Inr (filter (\<lambda>(p, n). \<not> (p \<in> set paths \<and> check 120 p (map_of fs p) \<noteq> Exited 0)) fs)"
  using assms
proof (induction paths arbitrary: fs)
  case Nil
  then show ?case by simp
next
  case (Cons p paths)
  from Cons.prems obtain n where n: "map_of fs p = Some n"
    by (auto simp: isfile_def)
  have notin: "p \<notin> set paths" and dist: "distinct paths" using Cons.prems by simp_all
  show ?case
  proof (cases "check 120 p (Some n) = Exited 0")
    case True
    have files: "\<forall>q\<in>set paths. isfile fs q" using Cons.prems by simp
    have "validate_batch check fs (p # paths) = validate_batch check fs paths"
      using validate_poc_file[OF n, of check] True by simp
    also have "\<dots> = Inr (filter (\<lambda>(q, m). \<not> (q \<in> set paths \<and> check 120 q (map_of fs q) \<noteq> Exited 0)) fs)"
      by (rule Cons.IH[OF dist files])
    also have "\<dots> = Inr (filter (\<lambda>(q, m). \<not> (q \<in> set (p # paths) \<and> check 120 q (map_of fs q) \<noteq> Exited 0)) fs)"
      using True n notin by (auto intro!: filter_cong)
    finally show ?thesis .
  next
    case False
    let ?fs1 = "AList.delete p fs"
    have same: "map_of ?fs1 q = map_of fs q" if "q \<noteq> p" for q
      using that by (simp add: AList.delete_conv')
    have files: "\<forall>q\<in>set paths. isfile ?fs1 q"
    proof
      fix q assume q: "q \<in> set paths"
      with notin have "q \<noteq> p" by blast
      with same[of q] Cons.prems q show "isfile ?fs1 q" by (simp add: isfile_def)
    qed
    have "validate_batch check fs (p # paths) = validate_batch check ?fs1 paths"
      using validate_poc_file[OF n, of check] False by simp
    also have "\<dots> = Inr (filter (\<lambda>(q, m). \<not> (q \<in> set paths \<and> check 120 q (map_of ?fs1 q) \<noteq> Exited 0)) ?fs1)"
      by (rule Cons.IH[OF dist files])
    also have "\<dots> = Inr (filter (\<lambda>(q, m). \<not> (q \<in> set paths \<and> check 120 q (map_of fs q) \<noteq> Exited 0)) ?fs1)"
    proof -
      have "map_of ?fs1 q = map_of fs q" if "q \<in> set paths" for q
        using that notin same[of q] by blast
      then show ?thesis by (auto intro!: filter_cong)
    qed
    also have "\<dots> = Inr (filter (\<lambda>(q, m). \<not> (q \<in> set (p # paths) \<and> check 120 q (map_of fs q) \<noteq> Exited 0)) fs)"
      unfolding delete_filter filter_filter using False n notin
      by (auto intro!: filter_cong)
    finally show ?thesis .
  qed
qed

lemma validate_batch_append:
  "validate_batch check fs (xs @ ys) =
     (case validate_batch check fs xs of Inl e \<Rightarrow> Inl e | Inr fs' \<Rightarrow> validate_batch check fs' ys)"
  by (induction xs arbitrary: fs) (auto split: sum.splits)

lemma validate_batches_concat:
  "validate_batches check fs bs = validate_batch check fs (concat bs)"
  by (induction bs arbitrary: fs) (auto simp: validate_batch_append split: sum.splits)

lemma validate_staging_batch:
  "validate_staging check fs = validate_batch check fs (walk TMP_DIR fs)"
proof -
  let ?ps = "walk TMP_DIR fs"
  have r: "py_range (length ?ps) 200 = Inr (map (\<lambda>k. k * 200) [0..<(length ?ps + 200 - 1) div 200])"
    by (simp add: py_range_def)
  have "concat (map (\<lambda>i. slice ?ps i 200) (map (\<lambda>k. k * 200) [0..<(length ?ps + 200 - 1) div 200])) =
        concat (map (\<lambda>k. slice ?ps (k * 200) 200) [0..<(length ?ps + 200 - 1) div 200])"
    by (simp add: comp_def)
  also have "\<dots> = take ((length ?ps + 200 - 1) div 200 * 200) ?ps"
    by (rule concat_slices_take)
  also have "\<dots> = ?ps"
    using ceil_div_covers[of 200 "length ?ps"] by simp
  finally show ?thesis
    unfolding validate_staging_def Let_def r by (simp add: validate_batches_concat)
qed

lemma validate_staging_result:
  assumes "distinct (map fst fs)"
  shows "validate_staging check fs =
         Inr (filter (\<lambda>(p, n). \<not> (strict_prefix TMP_DIR p \<and> check 120 p (map_of fs p) \<noteq> Exited 0)) fs)"
proof -
  have "validate_staging check fs =
        Inr (filter (\<lambda>(p, n). \<not> (p \<in> set (walk TMP_DIR fs) \<and> check 120 p (map_of fs p) \<noteq> Exited 0)) fs)"
    unfolding validate_staging_batch
    by (rule validate_batch_filter) (simp_all add: walk_distinct[OF assms] walk_isfile)
  also have "\<dots> = Inr (filter (\<lambda>(p, n). \<not> (strict_prefix TMP_DIR p \<and> check 120 p (map_of fs p) \<noteq> Exited 0)) fs)"
    by (auto intro!: filter_cong simp: walk_set isfile_iff) (metis fst_conv image_eqI)+
  finally show ?thesis .
qed

lemma os_rename_Inr:
  "os_rename s src dst = Inr s' \<Longrightarrow>
   \<exists>n. map_of s src = Some n \<and> (s' = s \<or> s' = AList.update dst n (AList.delete src s))"
  by (auto simp: os_rename_def split: option.splits if_splits)

lemma shutil_move_Inr:
  "shutil_move s src dst = Inr s' \<Longrightarrow>
   \<exists>n real. map_of s src = Some n \<and> (s' = s \<or> s' = AList.update real n (AList.delete src s))"
  by (auto simp: shutil_move_def Let_def split: if_splits dest!: os_rename_Inr)

lemma safe_move_Inr:
  "safe_move s src dst = Inr s' \<Longrightarrow>
   \<exists>n real. map_of s src = Some n \<and> (s' = s \<or> s' = AList.update real n (AList.delete src s))"
  by (auto simp: safe_move_def split: sum.splits dest!: shutil_move_Inr)

lemma submitted_move_origin:
  assumes "map_of (submitted (\<lambda>s. safe_move s src dest) s) p = Some m"
  shows "map_of s p = Some m \<or> map_of s src = Some m"
proof (cases "safe_move s src dest")
  case (Inl e)
  with assms show ?thesis by (simp add: submitted_def)
next
  case (Inr s')
  from safe_move_Inr[OF this] obtain n real where n: "map_of s src = Some n"
    and s': "s' = s \<or> s' = AList.update real n (AList.delete src s)" by blast
  from assms Inr have "map_of s' p = Some m" by (simp add: submitted_def)
  with s' n show ?thesis
    by (auto simp: AList.update_conv' AList.delete_conv' split: if_splits)
qed

lemma run_moves_origin:
  "map_of (run_moves s jobs) p = Some m \<Longrightarrow>
   \<exists>q. map_of s q = Some m \<and> (q = p \<or> q \<in> fst ` set jobs)"
proof (induction jobs arbitrary: s)
  case Nil
  then show ?case by simp
next
  case (Cons job jobs)
  obtain src dest where job: "job = (src, dest)" by (cases job)
  let ?s1 = "submitted (\<lambda>s. safe_move s src dest) s"
  from Cons.prems job have "map_of (run_moves ?s1 jobs) p = Some m" by simp
  from Cons.IH[OF this] obtain q where q: "map_of ?s1 q = Some m" "q = p \<or> q \<in> fst ` set jobs"
    by blast
  from submitted_move_origin[OF q(1)] have "map_of s q = Some m \<or> map_of s src = Some m" .
  with q(2) job show ?case by force
qed


lemma validated_lookup:
  assumes "distinct (map fst fs)" and "validate_staging check fs = Inr fs1"
  shows "map_of fs1 p =
      (if strict_prefix TMP_DIR p \<and> check 120 p (map_of fs p) \<noteq> Exited 0 then None else map_of fs p)"
proof -
  have "fs1 = filter (\<lambda>(p, n). \<not> (strict_prefix TMP_DIR p \<and> check 120 p (map_of fs p) \<noteq> Exited 0)) fs"
    using validate_staging_result[OF assms(1), of check] assms(2) by simp
  then show ?thesis
    by (simp only: map_of_filter_key) simp
qed

lemma validated_staged:
  assumes "distinct (map fst fs)" and "validate_staging check fs = Inr fs1"
      and "src \<in> set (walk TMP_DIR fs1)"
  shows "check 120 src (map_of fs src) = Exited 0 \<and> map_of fs1 src = map_of fs src"
proof -
  from assms(3) have a: "map_of fs1 src \<noteq> None" and b: "strict_prefix TMP_DIR src"
    by (simp_all add: walk_set isfile_def)
  show ?thesis
  proof (cases "check 120 src (map_of fs src) = Exited 0")
    case True
    with validated_lookup[OF assms(1,2), of src] show ?thesis by simp
  next
    case False
    with validated_lookup[OF assms(1,2), of src] a b show ?thesis by simp
  qed
qed

lemma migrated_origin:
  assumes "distinct (map fst fs)" and "validate_staging check fs = Inr fs1"
      and "map_of (migrate_valid_files picks fs1) p = Some n"
  shows "map_of fs p = Some n \<or>
      (\<exists>src. strict_prefix TMP_DIR src \<and> map_of fs src = Some n \<and> check 120 src (Some n) = Exited 0)"
proof -
  from assms(3) have "map_of (run_moves fs1 (as_completed picks (migration_jobs fs1))) p = Some n"
    by (simp only: migrate_valid_files_def)
  from run_moves_origin[OF this] obtain q where q: "map_of fs1 q = Some n"
      "q = p \<or> q \<in> fst ` set (as_completed picks (migration_jobs fs1))"
    by blast
  from q(2) show ?thesis
  proof
    assume qp: "q = p"
    have "map_of fs p = Some n"
    proof (cases "strict_prefix TMP_DIR p \<and> check 120 p (map_of fs p) \<noteq> Exited 0")
      case True
      with validated_lookup[OF assms(1,2), of p] q(1) qp show ?thesis by simp
    next
      case False
      with validated_lookup[OF assms(1,2), of p] q(1) qp show ?thesis by simp
    qed
    then show ?thesis ..
  next
    assume "q \<in> fst ` set (as_completed picks (migration_jobs fs1))"
    then have "q \<in> fst ` set (migration_jobs fs1)"
      by (simp only: as_completed_set)
    then have w: "q \<in> set (walk TMP_DIR fs1)"
      by (auto simp: migration_jobs_def)
    then have "strict_prefix TMP_DIR q" by (simp add: walk_set)
    moreover from validated_staged[OF assms(1,2) w] q(1)
    have "map_of fs q = Some n" "check 120 q (Some n) = Exited 0"
      by simp_all
    ultimately show ?thesis by blast
  qed
qed

text \<open>
  C3. Validation runs the checker on a staged file with a timeout of 120 seconds, leaves
  the file in place when the checker exits with 0 and deletes it in every other case
  (another exit code, a timeout, a failure to start). The validation loop never raises,
  and after it a file remains below \<^verbatim>\<open>.tmp\<close> only if the checker accepted it; so each file
  the migration is asked to move was accepted, and whatever the migration adds to or
  replaces in the tree is a staged file that the checker accepted with exit code 0.
\<close>

theorem only_accepted_files_migrate:
  assumes "distinct (map fst fs)"
  shows "(\<forall>path n. map_of fs path = Some n \<longrightarrow>
            validate_poc check fs path =
              Inr (if check 120 path (Some n) = Exited 0 then fs else AList.delete path fs)) \<and>
         (\<exists>fs1. validate_staging check fs = Inr fs1 \<and>
            enterprise_validation check picks fs = Inr (migrate_valid_files picks fs1) \<and>
            (\<forall>p. map_of fs1 p =
               (if strict_prefix TMP_DIR p \<and> check 120 p (map_of fs p) \<noteq> Exited 0 then None
                else map_of fs p)) \<and>
            (\<forall>job\<in>set (migration_jobs fs1).
               check 120 (fst job) (map_of fs (fst job)) = Exited 0 \<and>
               map_of fs1 (fst job) = map_of fs (fst job)) \<and>
            (\<forall>p n. map_of (migrate_valid_files picks fs1) p = Some n \<longrightarrow>
               map_of fs p = Some n \<or>
               (\<exists>src. strict_prefix TMP_DIR src \<and> map_of fs src = Some n \<and>
                      check 120 src (Some n) = Exited 0)))"
proof (rule conjI)
  show "\<forall>path n. map_of fs path = Some n \<longrightarrow>
            validate_poc check fs path =
              Inr (if check 120 path (Some n) = Exited 0 then fs else AList.delete path fs)"
    by (intro allI impI) (rule validate_poc_file)
next
  from validate_staging_result[OF assms, of check]
  obtain fs1 where v: "validate_staging check fs = Inr fs1" by blast
  have e: "enterprise_validation check picks fs = Inr (migrate_valid_files picks fs1)"
    by (simp add: enterprise_validation_def v)
  have jobs: "\<forall>job\<in>set (migration_jobs fs1).
      check 120 (fst job) (map_of fs (fst job)) = Exited 0 \<and>
      map_of fs1 (fst job) = map_of fs (fst job)"
  proof
    fix job assume "job \<in> set (migration_jobs fs1)"
    then have "fst job \<in> set (walk TMP_DIR fs1)"
      by (auto simp: migration_jobs_def)
    then show "check 120 (fst job) (map_of fs (fst job)) = Exited 0 \<and>
      map_of fs1 (fst job) = map_of fs (fst job)"
      by (rule validated_staged[OF assms v])
  qed
  from v e jobs validated_lookup[OF assms v] migrated_origin[OF assms v]
  show "\<exists>fs1. validate_staging check fs = Inr fs1 \<and>
            enterprise_validation check picks fs = Inr (migrate_valid_files picks fs1) \<and>
            (\<forall>p. map_of fs1 p =
               (if strict_prefix TMP_DIR p \<and> check 120 p (map_of fs p) \<noteq> Exited 0 then None
                else map_of fs p)) \<and>
            (\<forall>job\<in>set (migration_jobs fs1).
               check 120 (fst job) (map_of fs (fst job)) = Exited 0 \<and>
               map_of fs1 (fst job) = map_of fs (fst job)) \<and>
            (\<forall>p n. map_of (migrate_valid_files picks fs1) p = Some n \<longrightarrow>
               map_of fs p = Some n \<or>
               (\<exists>src. strict_prefix TMP_DIR src \<and> map_of fs src = Some n \<and>
                      check 120 src (Some n) = Exited 0))"
    by (intro exI[of _ fs1] conjI allI impI) assumption+
qed

lemma staged_tree_validated:
  "enterprise_validation reject_second [] staged_tree =
     Inr [([''poc'', ''old'', ''z.yaml''], File ''tags: []''),
          ([''poc'', ''rce'', ''x.yaml''], File ''tags: [rce]'')]"
  by code_simp

theorem only_accepted_files_migrate_witness:
  "distinct (map fst staged_tree) \<and>
   map_of staged_tree [''.tmp'', ''rce'', ''y.yaml''] = Some (File ''tags: [rce] #2'') \<and>
   validate_poc reject_second staged_tree [''.tmp'', ''rce'', ''y.yaml''] =
     Inr [([''.tmp'', ''rce'', ''x.yaml''], File ''tags: [rce]''),
          ([''poc'', ''old'', ''z.yaml''], File ''tags: []'')] \<and>
   enterprise_validation reject_second [] staged_tree =
     Inr [([''poc'', ''old'', ''z.yaml''], File ''tags: []''),
          ([''poc'', ''rce'', ''x.yaml''], File ''tags: [rce]'')]"
proof -
  have d: "distinct (map fst staged_tree)"
    by (simp add: staged_tree_def)
  have y: "map_of staged_tree [''.tmp'', ''rce'', ''y.yaml''] = Some (File ''tags: [rce] #2'')"
    by (simp add: staged_tree_def)
  note one = only_accepted_files_migrate[OF d, of reject_second "[]", THEN conjunct1, rule_format, OF y]
  have "validate_poc reject_second staged_tree [''.tmp'', ''rce'', ''y.yaml''] =
     Inr [([''.tmp'', ''rce'', ''x.yaml''], File ''tags: [rce]''),
          ([''poc'', ''old'', ''z.yaml''], File ''tags: []'')]"
    unfolding one by (simp add: reject_second_def staged_tree_def)
  with d y staged_tree_validated show ?thesis by blast
qed

subsection \<open>The index and the printed total\<close>

lemma walk_update_other:
  "\<not> strict_prefix d k \<Longrightarrow> walk d (AList.update k v fs) = walk d fs"
  by (induction fs) (auto simp: walk_def)

lemma generate_index_Inr:
  "generate_index fs = Inr fs' \<Longrightarrow> fs' = AList.update INDEX_FILE (File (index_text fs)) fs"
  by (auto simp: generate_index_def write_file_def split: if_splits)

lemma index_entries_update:
  "index_entries (AList.update INDEX_FILE v fs) = index_entries fs"
  by (simp add: index_entries_def walk_update_other INDEX_FILE_def POC_DIR_def)

lemma index_text_update:
  "index_text (AList.update INDEX_FILE v fs) = index_text fs"
  by (simp add: index_text_def index_entries_update)

lemma interrupt_cases:
  obtains (None) "i = None" | (Now) f where "i = Some (0::nat, f)"
    | (Later) k f where "i = Some (Suc k, f)"
  by (metis not0_implies_Suc option.exhaust surj_pair)

lemma run_stages_last:
  "run_stages i (sts @ [st]) fs = Inr s \<Longrightarrow> \<exists>t. st t = Inr s"
proof (induction sts arbitrary: i fs)
  case Nil
  then show ?case by (cases i rule: interrupt_cases) (auto split: sum.splits)
next
  case (Cons a sts)
  then show ?case by (cases i rule: interrupt_cases) (auto split: sum.splits)
qed

lemma main_Completed:
  assumes "main w file fs = Completed s n"
  shows "n = length (walk POC_DIR s)" and "\<exists>t. generate_index t = Inr s"
proof -
  from assms obtain c fs0 where r: "run_stages (sigint w) (stages w c) fs0 = Inr s"
    and n: "n = length (walk POC_DIR s)"
    by (auto simp: main_def on_interrupt_def split: sum.splits abort.splits prod.splits)
  show "n = length (walk POC_DIR s)" by (rule n)
  have st: "stages w c =
     [\<lambda>fs. if ENABLE_STAGE1 c then git_sync w c fs else Inr fs,
      enterprise_deduplication (hashlib_sha256 w) (dedup_picks w),
      dynamic_categorization (hashlib_sha256 w) (yaml_tags w) (copy_picks w),
      enterprise_validation (nuclei w) (move_picks w)] @ [generate_index]"
    by (simp add: stages_def)
  from r show "\<exists>t. generate_index t = Inr s"
    unfolding st by (rule run_stages_last)
qed

text \<open>
  C5 as stated does not hold: with a corpus that holds a rule and a file of another
  extension, the run completes, prints a total of 2, and writes an index of one line; the
  file \<^verbatim>\<open>rce/notes.txt\<close> is in the corpus and not in the index.
\<close>

theorem index_omits_other_files:
  "main quiet_world (Some small_config) mixed_corpus =
     Completed [([''poc'', ''rce'', ''x.yaml''], File ''tags: [rce]''),
                ([''poc'', ''rce'', ''notes.txt''], File ''seen in the wild''),
                ([''poc.txt''], File (''rce/x.yaml'' @ [CHR 0x0A]))] 2"
  by code_simp

text \<open>
  C5, amended. When a run completes, \<^verbatim>\<open>poc.txt\<close> holds exactly the text generated from
  the corpus as the run leaves it, whatever the file held before: one line per corpus file
  whose name ends in \<^verbatim>\<open>.yml\<close> or \<^verbatim>\<open>.yaml\<close>, with its path relative to the corpus, and no
  other line. The total printed counts every corpus file, of any extension, so it equals
  the number of index lines when all corpus files are rule files.
\<close>

theorem index_lists_rule_files:
  assumes "main w file fs = Completed s n"
  shows "map_of s INDEX_FILE = Some (File (index_text s)) \<and>
         index_text s = concat (map (\<lambda>e. path_text e @ [CHR 0x0A]) (index_entries s)) \<and>
         index_entries s = map (\<lambda>p. relpath p POC_DIR) (filter is_rule_file (walk POC_DIR s)) \<and>
         (\<forall>p\<in>set (walk POC_DIR s). is_rule_file p \<longrightarrow> relpath p POC_DIR \<in> set (index_entries s)) \<and>
         n = length (walk POC_DIR s) \<and>
         length (index_entries s) \<le> n \<and>
         ((\<forall>p\<in>set (walk POC_DIR s). is_rule_file p) \<longrightarrow> length (index_entries s) = n)"
proof -
  from main_Completed[OF assms] obtain t where n: "n = length (walk POC_DIR s)"
    and t: "generate_index t = Inr s" by blast
  from generate_index_Inr[OF t] have s: "s = AList.update INDEX_FILE (File (index_text t)) t" .
  have "index_text s = index_text t"
    unfolding s by (rule index_text_update)
  moreover have "map_of s INDEX_FILE = Some (File (index_text t))"
    unfolding s by (simp add: AList.update_conv')
  ultimately have a: "map_of s INDEX_FILE = Some (File (index_text s))" by simp
  have b: "length (index_entries s) \<le> n"
    unfolding n by (simp add: index_entries_def)
  have c: "length (index_entries s) = n" if "\<forall>p\<in>set (walk POC_DIR s). is_rule_file p"
    unfolding n using that by (simp add: index_entries_def)
  have d: "index_text s = concat (map (\<lambda>e. path_text e @ [CHR 0x0A]) (index_entries s))"
    by (simp add: index_text_def)
  have e: "index_entries s = map (\<lambda>p. relpath p POC_DIR) (filter is_rule_file (walk POC_DIR s))"
    by (simp add: index_entries_def)
  have f: "\<forall>p\<in>set (walk POC_DIR s). is_rule_file p \<longrightarrow> relpath p POC_DIR \<in> set (index_entries s)"
    unfolding e by simp
  have g: "(\<forall>p\<in>set (walk POC_DIR s). is_rule_file p) \<longrightarrow> length (index_entries s) = n"
    using c by blast
  show ?thesis
    by (intro conjI a d e f n b g)
qed

lemma two_tag_completed:
  "main quiet_world (Some small_config) two_tag_tree =
     Completed [([''clone-templates'', ''r1'', ''x.yaml''], File ''tags: [RCE, cve]''),
                ([''poc'', ''rce'', ''x.yaml''], File ''tags: [RCE, cve]''),
                ([''poc'', ''cve'', ''x.yaml''], File ''tags: [RCE, cve]''),
                ([''poc.txt''], File (''rce/x.yaml'' @ [CHR 0x0A] @ ''cve/x.yaml'' @ [CHR 0x0A]))] 2"
  by code_simp

theorem index_lists_rule_files_witness:
  "main quiet_world (Some small_config) two_tag_tree =
     Completed [([''clone-templates'', ''r1'', ''x.yaml''], File ''tags: [RCE, cve]''),
                ([''poc'', ''rce'', ''x.yaml''], File ''tags: [RCE, cve]''),
                ([''poc'', ''cve'', ''x.yaml''], File ''tags: [RCE, cve]''),
                ([''poc.txt''], File (''rce/x.yaml'' @ [CHR 0x0A] @ ''cve/x.yaml'' @ [CHR 0x0A]))] 2 \<and>
   index_entries [([''clone-templates'', ''r1'', ''x.yaml''], File ''tags: [RCE, cve]''),
                ([''poc'', ''rce'', ''x.yaml''], File ''tags: [RCE, cve]''),
                ([''poc'', ''cve'', ''x.yaml''], File ''tags: [RCE, cve]''),
                ([''poc.txt''], File (''rce/x.yaml'' @ [CHR 0x0A] @ ''cve/x.yaml'' @ [CHR 0x0A]))]
     = [[''rce'', ''x.yaml''], [''cve'', ''x.yaml'']] \<and>
   (2::nat) = length (walk POC_DIR [([''clone-templates'', ''r1'', ''x.yaml''], File ''tags: [RCE, cve]''),
                ([''poc'', ''rce'', ''x.yaml''], File ''tags: [RCE, cve]''),
                ([''poc'', ''cve'', ''x.yaml''], File ''tags: [RCE, cve]''),
                ([''poc.txt''], File (''rce/x.yaml'' @ [CHR 0x0A] @ ''cve/x.yaml'' @ [CHR 0x0A]))])"
proof -
  note all = index_lists_rule_files[OF two_tag_completed]
  note entries = all[THEN conjunct2, THEN conjunct2, THEN conjunct1]
  note total = all[THEN conjunct2, THEN conjunct2, THEN conjunct2, THEN conjunct2, THEN conjunct1]
  have "index_entries [([''clone-templates'', ''r1'', ''x.yaml''], File ''tags: [RCE, cve]''),
                ([''poc'', ''rce'', ''x.yaml''], File ''tags: [RCE, cve]''),
                ([''poc'', ''cve'', ''x.yaml''], File ''tags: [RCE, cve]''),
                ([''poc.txt''], File (''rce/x.yaml'' @ [CHR 0x0A] @ ''cve/x.yaml'' @ [CHR 0x0A]))]
     = [[''rce'', ''x.yaml''], [''cve'', ''x.yaml'']]"
    unfolding entries
    by (simp add: walk_def POC_DIR_def relpath_def is_rule_file_def basename_def suffix_to_prefix)
  with two_tag_completed total show ?thesis by blast
qed

subsection \<open>Plain tags and staging paths\<close>

lemma split_sep_plain: "CHR ''/'' \<notin> set s \<Longrightarrow> split_sep s = [s]"
  by (induction s) auto

lemma path_join_plain: "plain_name t \<Longrightarrow> path_join d t = d @ [t]"
  by (cases t) (auto simp: plain_name_def path_join_def split_sep_plain)

lemma blocked_iff: "blocked fs d \<longleftrightarrow> (\<exists>p. p \<noteq> [] \<and> prefix p d \<and> isfile fs p)"
  by (auto simp: blocked_def list_ex_iff in_set_prefixes)

lemma staging_clean_flat: "staging_clean fs \<Longrightarrow> staging_flat fs"
  by (simp add: staging_clean_def staging_flat_def)

lemma staging_flat_file:
  "staging_flat fs \<Longrightarrow> isfile fs p \<Longrightarrow> strict_prefix TMP_DIR p \<Longrightarrow> length p = 3"
  by (auto simp: staging_flat_def list_all_iff walk_set)

lemma not_blocked_tag_dir:
  assumes "staging_flat fs"
  shows "\<not> blocked fs (TMP_DIR @ [t])"
proof
  assume "blocked fs (TMP_DIR @ [t])"
  then obtain p where p: "p \<noteq> []" "prefix p (TMP_DIR @ [t])" "isfile fs p"
    by (auto simp: blocked_iff)
  from p(1,2) have "p = TMP_DIR \<or> p = TMP_DIR @ [t]"
    by (auto simp: TMP_DIR_def prefix_Cons split: list.splits)
  then show False
  proof
    assume "p = TMP_DIR"
    with p(3) assms show False by (simp add: staging_flat_def)
  next
    assume e: "p = TMP_DIR @ [t]"
    then have "strict_prefix TMP_DIR p" by (simp add: TMP_DIR_def)
    from staging_flat_file[OF assms p(3) this] e show False by (simp add: TMP_DIR_def)
  qed
qed

lemma not_isdir_staged:
  assumes "staging_flat fs"
  shows "\<not> isdir fs (TMP_DIR @ [t, f])"
proof
  assume "isdir fs (TMP_DIR @ [t, f])"
  then obtain p where p: "isfile fs p" "strict_prefix (TMP_DIR @ [t, f]) p"
    by (auto simp: isdir_iff)
  then have "strict_prefix TMP_DIR p" and "3 < length p"
    by (auto simp: TMP_DIR_def strict_prefix_def prefix_def)
  with staging_flat_file[OF assms p(1)] show False by simp
qed

lemma makedirs_tag_dir: "staging_flat fs \<Longrightarrow> makedirs fs (TMP_DIR @ [t]) = Inr ()"
  using not_blocked_tag_dir[of fs t] by (simp add: makedirs_def blocked_def TMP_DIR_def)

lemma stage_tags_plain:
  assumes "staging_flat fs" and "list_all plain_name (tag_names items)"
  shows "stage_tags fs src items =
         map (\<lambda>t. (src, TMP_DIR @ [t, basename src])) (tag_names items)"
  using assms(2)
proof (induction items rule: tag_names.induct)
  case (3 tag items)
  then have "plain_name (lower tag)" by simp
  then have "path_join TMP_DIR (lower tag) = TMP_DIR @ [lower tag]" by (rule path_join_plain)
  with 3 makedirs_tag_dir[OF assms(1), of "lower tag"] show ?case by simp
qed simp_all

lemma process_poc_plain:
  assumes "staging_flat fs" and "list_all plain_name (declared_tags load_tags fs src)"
  shows "process_poc sha load_tags fs ex src =
         (case fingerprint sha fs src of
            None \<Rightarrow> []
          | Some h \<Rightarrow> if h \<in> set ex then []
                       else map (\<lambda>t. (src, TMP_DIR @ [t, basename src])) (declared_tags load_tags fs src))"
proof (cases "map_of fs src")
  case None
  then show ?thesis by (simp add: process_poc_def fingerprint_def)
next
  case (Some n)
  show ?thesis
  proof (cases n)
    case Broken
    with Some show ?thesis by (simp add: process_poc_def fingerprint_def)
  next
    case (File c)
    show ?thesis
    proof (cases "load_tags c")
      case None
      with Some File show ?thesis
        by (simp add: process_poc_def fingerprint_def declared_tags_def)
    next
      case v: (Some v)
      show ?thesis
      proof (cases "iter_tags v")
        case None
        with Some File v show ?thesis
          by (simp add: process_poc_def fingerprint_def declared_tags_def)
      next
        case items: (Some items)
        with Some File v assms(2) have "list_all plain_name (tag_names items)"
          by (simp add: declared_tags_def)
        from stage_tags_plain[OF assms(1) this, of src] Some File v items show ?thesis
          by (simp add: process_poc_def fingerprint_def declared_tags_def)
      qed
    qed
  qed
qed

subsection \<open>Copies into a flat staging tree\<close>

lemma isfile_update: "isfile (AList.update k v fs) p \<longleftrightarrow> p = k \<or> isfile fs p"
  by (auto simp: isfile_def AList.update_conv')

lemma isfile_delete: "isfile (AList.delete k fs) p \<longleftrightarrow> p \<noteq> k \<and> isfile fs p"
  by (auto simp: isfile_def AList.delete_conv')

lemma filter_update_other:
  "\<not> Q k \<Longrightarrow> filter (\<lambda>(p, n). Q p) (AList.update k v fs) = filter (\<lambda>(p, n). Q p) fs"
  by (induction fs) auto

lemma staging_flat_update:
  assumes "staging_flat s"
  shows "staging_flat (AList.update (TMP_DIR @ [t, f]) n s)"
proof -
  have "TMP_DIR @ [t, f] \<noteq> TMP_DIR" by simp
  moreover have "length (TMP_DIR @ [t, f]) = 3" by (simp add: TMP_DIR_def)
  ultimately show ?thesis
    using assms by (auto simp: staging_flat_def list_all_iff walk_set isfile_update)
qed

lemma copy_step:
  assumes "staging_flat s" and "\<not> strict_prefix TMP_DIR src"
  shows "submitted (\<lambda>s. shutil_copy s src (TMP_DIR @ [t, f])) s =
         (case map_of s src of
            Some (File c) \<Rightarrow> AList.update (TMP_DIR @ [t, f]) (File c) s
          | _ \<Rightarrow> s)"
proof -
  let ?dst = "TMP_DIR @ [t, f]"
  have ne: "src \<noteq> ?dst" using assms(2) by (auto simp: TMP_DIR_def)
  have nd: "\<not> isdir s ?dst" by (rule not_isdir_staged[OF assms(1)])
  have nb: "\<not> blocked s (dirname ?dst)"
    using not_blocked_tag_dir[OF assms(1), of t] by (simp add: dirname_def TMP_DIR_def)
  have "write_file s ?dst n = Inr (AList.update ?dst n s)" for n
    using nd nb by (simp add: write_file_def)
  then show ?thesis
    using ne nd
    by (auto simp: submitted_def shutil_copy_def Let_def split: option.splits node.splits)
qed

lemma copy_step_job:
  assumes "staging_flat s" and "staging_job (src, dst)"
  shows "submitted (\<lambda>s. shutil_copy s src dst) s =
         (case map_of s src of Some (File c) \<Rightarrow> AList.update dst (File c) s | _ \<Rightarrow> s)"
    and "staging_flat (submitted (\<lambda>s. shutil_copy s src dst) s)"
    and "strict_prefix TMP_DIR dst"
proof -
  from assms(2) obtain t f where d: "dst = TMP_DIR @ [t, f]" and src: "\<not> strict_prefix TMP_DIR src"
    by (auto simp: staging_job_def)
  show eq: "submitted (\<lambda>s. shutil_copy s src dst) s =
         (case map_of s src of Some (File c) \<Rightarrow> AList.update dst (File c) s | _ \<Rightarrow> s)"
    unfolding d by (rule copy_step[OF assms(1) src])
  show "staging_flat (submitted (\<lambda>s. shutil_copy s src dst) s)"
    unfolding eq using assms(1) staging_flat_update[OF assms(1)] d
    by (auto split: option.splits node.splits)
  show "strict_prefix TMP_DIR dst" by (simp add: d TMP_DIR_def)
qed

lemma run_copies_flat:
  "staging_flat s \<Longrightarrow> list_all staging_job jobs \<Longrightarrow> staging_flat (run_copies s jobs)"
proof (induction jobs arbitrary: s)
  case (Cons job jobs)
  obtain src dst where job: "job = (src, dst)" by (cases job)
  with Cons.prems have j: "staging_job (src, dst)" and js: "list_all staging_job jobs" by simp_all
  from Cons.IH[OF copy_step_job(2)[OF Cons.prems(1) j] js] job show ?case by simp
qed simp

lemma run_copies_outside:
  "staging_flat s \<Longrightarrow> list_all staging_job jobs \<Longrightarrow>
   filter (\<lambda>(p, n). \<not> strict_prefix TMP_DIR p) (run_copies s jobs) =
   filter (\<lambda>(p, n). \<not> strict_prefix TMP_DIR p) s"
proof (induction jobs arbitrary: s)
  case (Cons job jobs)
  obtain src dst where job: "job = (src, dst)" by (cases job)
  with Cons.prems have j: "staging_job (src, dst)" and js: "list_all staging_job jobs" by simp_all
  let ?s1 = "submitted (\<lambda>s. shutil_copy s src dst) s"
  have "filter (\<lambda>(p, n). \<not> strict_prefix TMP_DIR p) ?s1 = filter (\<lambda>(p, n). \<not> strict_prefix TMP_DIR p) s"
    unfolding copy_step_job(1)[OF Cons.prems(1) j]
    using copy_step_job(3)[OF Cons.prems(1) j]
    by (auto split: option.splits node.splits simp: filter_update_other)
  with Cons.IH[OF copy_step_job(2)[OF Cons.prems(1) j] js] job show ?case by simp
qed simp

lemma map_of_outside:
  assumes "filter (\<lambda>(p, n). Q p) s' = filter (\<lambda>(p, n). Q p) s" and "Q p"
  shows "map_of s' p = map_of s p"
proof -
  have "map_of (filter (\<lambda>(p, n). Q p) s') p = map_of (filter (\<lambda>(p, n). Q p) s) p"
    using assms(1) by simp
  with assms(2) show ?thesis by (simp add: map_of_filter_key)
qed

lemma walk_outside:
  assumes "filter (\<lambda>(p, n). \<not> strict_prefix d p) s' = filter (\<lambda>(p, n). \<not> strict_prefix d p) s"
      and "\<not> prefix e d" and "\<not> prefix d e"
  shows "walk e s' = walk e s"
proof -
  have disj: "\<not> strict_prefix d p" if "strict_prefix e p" for p
  proof
    assume "strict_prefix d p"
    with that have "prefix d p" "prefix e p" by (simp_all add: strict_prefix_def)
    then have "prefix d e \<or> prefix e d" by (rule prefix_same_cases)
    with assms(2,3) show False by blast
  qed
  have "walk e t = walk e (filter (\<lambda>(p, n). \<not> strict_prefix d p) t)" for t :: fs
  proof -
    have "\<forall>x\<in>set (walk e t). \<not> strict_prefix d x"
      using disj by (simp add: walk_def)
    then have "filter (\<lambda>x. \<not> strict_prefix d x) (walk e t) = walk e t"
      by (rule filter_True)
    then show ?thesis by (simp add: walk_filter_key)
  qed
  from this[of s'] this[of s] assms(1) show ?thesis by simp
qed

lemma run_copies_distinct:
  "distinct (map fst s) \<Longrightarrow> distinct (map fst (run_copies s jobs))"
proof (induction jobs arbitrary: s)
  case (Cons job jobs)
  obtain src dst where job: "job = (src, dst)" by (cases job)
  have "distinct (map fst (submitted (\<lambda>s. shutil_copy s src dst) s))"
  proof (cases "shutil_copy s src dst")
    case (Inl e)
    with Cons.prems show ?thesis by (simp add: submitted_def)
  next
    case (Inr s')
    then obtain real n where "s' = AList.update real n s"
      by (auto simp: shutil_copy_def write_file_def Let_def split: option.splits node.splits if_splits)
    with Cons.prems Inr show ?thesis by (simp add: submitted_def distinct_update)
  qed
  from Cons.IH[OF this] job show ?case by simp
qed simp

text \<open>What lies at a staging path after the copies: what lay there before, or a copy of a job's source.\<close>

lemma run_copies_staged:
  assumes "staging_flat s" and "list_all staging_job jobs"
  shows "(map_of (run_copies s jobs) p = map_of s p \<and>
            \<not> (\<exists>src c. (src, p) \<in> set jobs \<and> map_of s src = Some (File c))) \<or>
         (\<exists>src c. (src, p) \<in> set jobs \<and> map_of s src = Some (File c) \<and>
            map_of (run_copies s jobs) p = Some (File c))"
  using assms
proof (induction jobs arbitrary: s)
  case Nil
  then show ?case by simp
next
  case (Cons job jobs)
  obtain src dst where job: "job = (src, dst)" by (cases job)
  with Cons.prems have j: "staging_job (src, dst)" and js: "list_all staging_job jobs" by simp_all
  let ?s1 = "submitted (\<lambda>s. shutil_copy s src dst) s"
  note step = copy_step_job[OF Cons.prems(1) j]
  have sources: "map_of ?s1 q = map_of s q" if "\<not> strict_prefix TMP_DIR q" for q
    unfolding step(1) using that step(3)
    by (auto split: option.splits node.splits simp: AList.update_conv')
  have src_same: "map_of ?s1 q = map_of s q" if "(q, d) \<in> set jobs" for q d
  proof -
    from that js have "staging_job (q, d)" by (auto simp: list_all_iff)
    then show ?thesis using sources by (simp add: staging_job_def)
  qed
  have run: "run_copies s (job # jobs) = run_copies ?s1 jobs" using job by simp
  from Cons.IH[OF step(2) js]
  consider (keep) "map_of (run_copies ?s1 jobs) p = map_of ?s1 p"
      "\<not> (\<exists>src c. (src, p) \<in> set jobs \<and> map_of ?s1 src = Some (File c))"
    | (copy) q c where "(q, p) \<in> set jobs" "map_of ?s1 q = Some (File c)"
      "map_of (run_copies ?s1 jobs) p = Some (File c)"
    by blast
  then show ?case
  proof cases
    case copy
    have a: "(q, p) \<in> set (job # jobs)" using copy(1) by simp
    have b: "map_of s q = Some (File c)" using src_same[OF copy(1)] copy(2) by simp
    have c: "map_of (run_copies s (job # jobs)) p = Some (File c)" using run copy(3) by simp
    from a b c show ?thesis by blast
  next
    case keep
    have later: "\<not> (\<exists>q c. (q, p) \<in> set jobs \<and> map_of s q = Some (File c))"
      using keep(2) src_same by metis
    show ?thesis
    proof (cases "dst = p \<and> (\<exists>c. map_of s src = Some (File c))")
      case True
      then obtain c where c: "map_of s src = Some (File c)" and d: "dst = p" by blast
      have "map_of ?s1 p = Some (File c)"
        unfolding step(1) using c d by (simp add: AList.update_conv')
      with keep(1) run have "map_of (run_copies s (job # jobs)) p = Some (File c)" by simp
      moreover have "(src, p) \<in> set (job # jobs)" using d job by simp
      ultimately show ?thesis using c by blast
    next
      case False
      have "map_of ?s1 p = map_of s p"
        unfolding step(1) using False
        by (auto split: option.splits node.splits simp: AList.update_conv')
      with keep(1) run have "map_of (run_copies s (job # jobs)) p = map_of s p" by simp
      moreover have "\<not> (\<exists>q c. (q, p) \<in> set (job # jobs) \<and> map_of s q = Some (File c))"
        using later False job by auto
      ultimately show ?thesis by blast
    qed
  qed
qed

subsection \<open>Moves into a corpus organised by tag\<close>

lemma corpus_by_tag_file:
  "corpus_by_tag fs \<Longrightarrow> isfile fs p \<Longrightarrow> strict_prefix POC_DIR p \<Longrightarrow> length p = 3"
  by (auto simp: corpus_by_tag_def list_all_iff walk_set)

lemma not_blocked_corpus_dir:
  assumes "corpus_by_tag fs"
  shows "\<not> blocked fs (POC_DIR @ [t])"
proof
  assume "blocked fs (POC_DIR @ [t])"
  then obtain p where p: "p \<noteq> []" "prefix p (POC_DIR @ [t])" "isfile fs p"
    by (auto simp: blocked_iff)
  from p(1,2) have "p = POC_DIR \<or> p = POC_DIR @ [t]"
    by (auto simp: POC_DIR_def prefix_Cons split: list.splits)
  then show False
  proof
    assume "p = POC_DIR"
    with p(3) assms show False by (simp add: corpus_by_tag_def)
  next
    assume e: "p = POC_DIR @ [t]"
    then have "strict_prefix POC_DIR p" by (simp add: POC_DIR_def)
    from corpus_by_tag_file[OF assms p(3) this] e show False by (simp add: POC_DIR_def)
  qed
qed

lemma not_isdir_corpus_file:
  assumes "corpus_by_tag fs"
  shows "\<not> isdir fs (POC_DIR @ [t, f])"
proof
  assume "isdir fs (POC_DIR @ [t, f])"
  then obtain p where p: "isfile fs p" "strict_prefix (POC_DIR @ [t, f]) p"
    by (auto simp: isdir_iff)
  then have "strict_prefix POC_DIR p" and "3 < length p"
    by (auto simp: POC_DIR_def strict_prefix_def prefix_def)
  with corpus_by_tag_file[OF assms p(1)] show False by simp
qed

lemma move_step:
  assumes "corpus_by_tag s"
  shows "submitted (\<lambda>s. safe_move s (TMP_DIR @ [t, f]) (POC_DIR @ [t, f])) s =
         (case map_of s (TMP_DIR @ [t, f]) of
            None \<Rightarrow> s
          | Some n \<Rightarrow> AList.update (POC_DIR @ [t, f]) n (AList.delete (TMP_DIR @ [t, f]) s))"
proof -
  let ?src = "TMP_DIR @ [t, f]" and ?dest = "POC_DIR @ [t, f]"
  have ne: "?src \<noteq> ?dest" by (simp add: TMP_DIR_def POC_DIR_def)
  have dn: "dirname ?dest = POC_DIR @ [t]" by (simp add: dirname_def POC_DIR_def)
  have nd: "\<not> isdir s ?dest" by (rule not_isdir_corpus_file[OF assms])
  have nb: "\<not> blocked s (POC_DIR @ [t])" by (rule not_blocked_corpus_dir[OF assms])
  have mk: "makedirs s (dirname ?dest) = Inr ()"
    unfolding dn using nb by (simp add: makedirs_def blocked_def POC_DIR_def)
  have "safe_move s ?src ?dest = os_rename s ?src ?dest"
    using mk nd by (simp add: safe_move_def shutil_move_def)
  also have "\<dots> = (case map_of s ?src of None \<Rightarrow> Inl OSError
      | Some n \<Rightarrow> Inr (AList.update ?dest n (AList.delete ?src s)))"
    using ne nd nb dn by (simp add: os_rename_def split: option.splits)
  finally show ?thesis
    by (simp add: submitted_def split: option.splits)
qed

lemma corpus_by_tag_move:
  assumes "corpus_by_tag s"
  shows "corpus_by_tag (AList.update (POC_DIR @ [t, f]) n (AList.delete src s))"
proof -
  have "POC_DIR @ [t, f] \<noteq> POC_DIR" by simp
  moreover have "length (POC_DIR @ [t, f]) = 3" by (simp add: POC_DIR_def)
  ultimately show ?thesis
    using assms
    by (auto simp: corpus_by_tag_def list_all_iff walk_set isfile_update isfile_delete)
qed

lemma move_step_job:
  assumes "corpus_by_tag s" and "migration_job (src, dest)"
  shows "submitted (\<lambda>s. safe_move s src dest) s =
         (case map_of s src of None \<Rightarrow> s | Some n \<Rightarrow> AList.update dest n (AList.delete src s))"
    and "corpus_by_tag (submitted (\<lambda>s. safe_move s src dest) s)"
    and "strict_prefix TMP_DIR src" and "strict_prefix POC_DIR dest"
    and "length src = 3" and "length dest = 3" and "src \<noteq> dest"
proof -
  from assms(2) obtain t f where sd: "src = TMP_DIR @ [t, f]" "dest = POC_DIR @ [t, f]"
    by (auto simp: migration_job_def)
  show eq: "submitted (\<lambda>s. safe_move s src dest) s =
         (case map_of s src of None \<Rightarrow> s | Some n \<Rightarrow> AList.update dest n (AList.delete src s))"
    unfolding sd by (rule move_step[OF assms(1)])
  show "corpus_by_tag (submitted (\<lambda>s. safe_move s src dest) s)"
    unfolding eq using assms(1) corpus_by_tag_move[OF assms(1)] sd
    by (auto split: option.splits)
  show "strict_prefix TMP_DIR src" "strict_prefix POC_DIR dest" "length src = 3" "length dest = 3"
    "src \<noteq> dest"
    by (simp_all add: sd TMP_DIR_def POC_DIR_def)
qed

lemma migration_job_inj:
  "migration_job (a, b) \<Longrightarrow> migration_job (a', b') \<Longrightarrow> (a = a') = (b = b')"
  by (auto simp: migration_job_def)

lemma migration_job_disjoint:
  "migration_job (a, b) \<Longrightarrow> migration_job (a', b') \<Longrightarrow> a \<noteq> b'"
  by (auto simp: migration_job_def TMP_DIR_def POC_DIR_def)

lemma run_moves_by_tag:
  "corpus_by_tag s \<Longrightarrow> list_all migration_job js \<Longrightarrow> corpus_by_tag (run_moves s js)"
proof (induction js arbitrary: s)
  case (Cons job js)
  obtain src dest where job: "job = (src, dest)" by (cases job)
  with Cons.prems have j: "migration_job (src, dest)" and js: "list_all migration_job js" by simp_all
  from Cons.IH[OF move_step_job(2)[OF Cons.prems(1) j] js] job show ?case by simp
qed simp

lemma run_moves_frame:
  "corpus_by_tag s \<Longrightarrow> list_all migration_job js \<Longrightarrow>
   p \<notin> fst ` set js \<Longrightarrow> p \<notin> snd ` set js \<Longrightarrow> map_of (run_moves s js) p = map_of s p"
proof (induction js arbitrary: s)
  case (Cons job js)
  obtain src dest where job: "job = (src, dest)" by (cases job)
  with Cons.prems have j: "migration_job (src, dest)" and js: "list_all migration_job js" by simp_all
  let ?s1 = "submitted (\<lambda>s. safe_move s src dest) s"
  note step = move_step_job[OF Cons.prems(1) j]
  from Cons.prems(3,4) job have p: "p \<noteq> src" "p \<noteq> dest" "p \<notin> fst ` set js" "p \<notin> snd ` set js"
    by auto
  have "map_of ?s1 p = map_of s p"
    unfolding step(1) using p(1,2)
    by (auto split: option.splits simp: AList.update_conv' AList.delete_conv')
  with Cons.IH[OF step(2) js p(3,4)] job show ?case by simp
qed simp

lemma run_moves_source:
  "corpus_by_tag s \<Longrightarrow> list_all migration_job js \<Longrightarrow>
   p \<in> fst ` set js \<Longrightarrow> map_of (run_moves s js) p = None"
proof (induction js arbitrary: s)
  case (Cons job js)
  obtain src dest where job: "job = (src, dest)" by (cases job)
  with Cons.prems have j: "migration_job (src, dest)" and js: "list_all migration_job js" by simp_all
  let ?s1 = "submitted (\<lambda>s. safe_move s src dest) s"
  note step = move_step_job[OF Cons.prems(1) j]
  show ?case
  proof (cases "p \<in> fst ` set js")
    case True
    from Cons.IH[OF step(2) js True] job show ?thesis by simp
  next
    case False
    with Cons.prems(3) job have ps: "p = src" by auto
    have "p \<notin> snd ` set js"
    proof
      assume "p \<in> snd ` set js"
      then obtain a where "(a, p) \<in> set js" by auto
      with js have "migration_job (a, p)" by (auto simp: list_all_iff)
      from migration_job_disjoint[OF j this] ps show False by simp
    qed
    from run_moves_frame[OF step(2) js False this]
    have "map_of (run_moves ?s1 js) p = map_of ?s1 p" .
    also have "\<dots> = None"
      unfolding step(1) using ps step(7)
      by (auto split: option.splits simp: AList.update_conv' AList.delete_conv')
    finally show ?thesis using job by simp
  qed
qed simp

lemma run_moves_target:
  "corpus_by_tag s \<Longrightarrow> list_all migration_job js \<Longrightarrow> distinct (map fst js) \<Longrightarrow>
   (src, p) \<in> set js \<Longrightarrow>
   map_of (run_moves s js) p = (case map_of s src of Some n \<Rightarrow> Some n | None \<Rightarrow> map_of s p)"
proof (induction js arbitrary: s)
  case (Cons job js)
  obtain a b where job: "job = (a, b)" by (cases job)
  with Cons.prems have j: "migration_job (a, b)" and js: "list_all migration_job js"
    and d: "distinct (map fst js)" and a: "a \<notin> fst ` set js" by simp_all
  let ?s1 = "submitted (\<lambda>s. safe_move s a b) s"
  note step = move_step_job[OF Cons.prems(1) j]
  show ?case
  proof (cases "(src, p) \<in> set js")
    case True
    with js have m: "migration_job (src, p)" by (auto simp: list_all_iff)
    from True a have "src \<noteq> a" by force
    with migration_job_inj[OF m j] have "p \<noteq> b" by simp
    from migration_job_disjoint[OF m j] have "src \<noteq> b" .
    from migration_job_disjoint[OF j m] have "p \<noteq> a" by simp
    have 1: "map_of ?s1 src = map_of s src"
      unfolding step(1) using \<open>src \<noteq> a\<close> \<open>src \<noteq> b\<close>
      by (auto split: option.splits simp: AList.update_conv' AList.delete_conv')
    have 2: "map_of ?s1 p = map_of s p"
      unfolding step(1) using \<open>p \<noteq> a\<close> \<open>p \<noteq> b\<close>
      by (auto split: option.splits simp: AList.update_conv' AList.delete_conv')
    from Cons.IH[OF step(2) js d True] 1 2 job show ?thesis by (simp split: option.splits)
  next
    case False
    with Cons.prems(4) job have e: "src = a" "p = b" by auto
    have nf: "p \<notin> fst ` set js"
    proof
      assume "p \<in> fst ` set js"
      then obtain q where "(p, q) \<in> set js" by auto
      with js have "migration_job (p, q)" by (auto simp: list_all_iff)
      from migration_job_disjoint[OF this j] e show False by simp
    qed
    have ns: "p \<notin> snd ` set js"
    proof
      assume "p \<in> snd ` set js"
      then obtain q where q: "(q, p) \<in> set js" by auto
      with js have "migration_job (q, p)" by (auto simp: list_all_iff)
      from migration_job_inj[OF this j] e have "q = a" by simp
      with q a show False by force
    qed
    from run_moves_frame[OF step(2) js nf ns]
    have "map_of (run_moves ?s1 js) p = map_of ?s1 p" .
    also have "\<dots> = (case map_of s src of Some n \<Rightarrow> Some n | None \<Rightarrow> map_of s p)"
      unfolding step(1) using e step(7)
      by (auto split: option.splits simp: AList.update_conv' AList.delete_conv')
    finally show ?thesis using job by simp
  qed
qed simp

lemma run_moves_distinct:
  "distinct (map fst s) \<Longrightarrow> distinct (map fst (run_moves s js))"
proof (induction js arbitrary: s)
  case (Cons job js)
  obtain src dest where job: "job = (src, dest)" by (cases job)
  have "distinct (map fst (submitted (\<lambda>s. safe_move s src dest) s))"
  proof (cases "safe_move s src dest")
    case (Inl e)
    with Cons.prems show ?thesis by (simp add: submitted_def)
  next
    case (Inr s')
    from safe_move_Inr[OF this] Cons.prems Inr show ?thesis
      by (auto simp: submitted_def distinct_update distinct_delete)
  qed
  from Cons.IH[OF this] job show ?case by simp
qed simp

subsection \<open>The stages on trees of the expected shape\<close>

lemma trees_disjoint:
  "strict_prefix TMP_DIR p \<Longrightarrow> \<not> strict_prefix POC_DIR p"
  "strict_prefix TMP_DIR p \<Longrightarrow> \<not> strict_prefix CLONE_DIR p"
  "strict_prefix POC_DIR p \<Longrightarrow> \<not> strict_prefix CLONE_DIR p"
  by (cases p; simp add: TMP_DIR_def POC_DIR_def CLONE_DIR_def)+

lemma as_completed_list_all: "list_all P (as_completed picks xs) = list_all P xs"
  by (simp add: list_all_iff as_completed_set)

lemma as_completed_distinct_fst:
  "distinct (map fst (as_completed picks js)) = distinct (map fst js)"
  by (simp add: as_completed_map[symmetric] as_completed_distinct)

lemma staged_path_shape:
  assumes "staging_flat s" and "src \<in> set (walk TMP_DIR s)"
  shows "\<exists>t f. src = TMP_DIR @ [t, f]"
proof -
  from assms(2) have f: "isfile s src" and p: "strict_prefix TMP_DIR src"
    by (simp_all add: walk_set)
  from staging_flat_file[OF assms(1) f p] have "length src = 3" .
  then obtain a t f where "src = [a, t, f]"
    by (auto simp: length_Suc_conv numeral_3_eq_3)
  with p show ?thesis by (auto simp: TMP_DIR_def)
qed

lemma corpus_path_shape:
  assumes "corpus_by_tag s" and "p \<in> set (walk POC_DIR s)"
  shows "\<exists>t f. p = POC_DIR @ [t, f]"
proof -
  from assms(2) have f: "isfile s p" and pp: "strict_prefix POC_DIR p"
    by (simp_all add: walk_set)
  from corpus_by_tag_file[OF assms(1) f pp] have "length p = 3" .
  then obtain a t f where "p = [a, t, f]"
    by (auto simp: length_Suc_conv numeral_3_eq_3)
  with pp show ?thesis by (auto simp: POC_DIR_def)
qed

lemma migration_jobs_shape:
  assumes "staging_flat s"
  shows "list_all migration_job (migration_jobs s)"
proof -
  have "migration_job (src, POC_DIR @ relpath src TMP_DIR)" if "src \<in> set (walk TMP_DIR s)" for src
  proof -
    from staged_path_shape[OF assms that] obtain t f where "src = TMP_DIR @ [t, f]" by blast
    then show ?thesis by (auto simp: migration_job_def relpath_def)
  qed
  then show ?thesis by (simp add: migration_jobs_def list_all_iff)
qed

lemma migration_jobs_fst: "map fst (migration_jobs s) = walk TMP_DIR s"
  by (simp add: migration_jobs_def comp_def)

lemma migration_jobs_mem:
  "(TMP_DIR @ [t, f], POC_DIR @ [t, f]) \<in> set (migration_jobs s) \<longleftrightarrow> isfile s (TMP_DIR @ [t, f])"
  by (auto simp: migration_jobs_def relpath_def walk_set TMP_DIR_def POC_DIR_def)

text \<open>The tree after the migration, when staging is flat and the corpus organised by tag.\<close>

lemma migrate_result:
  assumes wf: "distinct (map fst s)" and flat: "staging_flat s" and tag: "corpus_by_tag s"
  shows "corpus_by_tag (migrate_valid_files picks s)"
    and "map_of (migrate_valid_files picks s) (POC_DIR @ [t, f]) =
           (case map_of s (TMP_DIR @ [t, f]) of Some n \<Rightarrow> Some n | None \<Rightarrow> map_of s (POC_DIR @ [t, f]))"
    and "strict_prefix TMP_DIR p \<Longrightarrow> map_of (migrate_valid_files picks s) p = None"
    and "\<not> strict_prefix TMP_DIR p \<Longrightarrow> \<not> strict_prefix POC_DIR p \<Longrightarrow>
           map_of (migrate_valid_files picks s) p = map_of s p"
    and "distinct (map fst (migrate_valid_files picks s))"
proof -
  let ?js = "as_completed picks (migration_jobs s)"
  have js: "list_all migration_job ?js"
    by (simp add: as_completed_list_all migration_jobs_shape[OF flat])
  have d: "distinct (map fst ?js)"
    by (simp add: as_completed_distinct_fst migration_jobs_fst walk_distinct[OF wf])
  have fst_js: "fst ` set ?js = set (walk TMP_DIR s)"
    by (simp add: as_completed_set migration_jobs_fst[symmetric])
  have under: "strict_prefix TMP_DIR a \<and> strict_prefix POC_DIR b" if "(a, b) \<in> set ?js" for a b
  proof -
    from that js have "migration_job (a, b)" by (auto simp: list_all_iff)
    then show ?thesis by (auto simp: migration_job_def TMP_DIR_def POC_DIR_def)
  qed
  show "corpus_by_tag (migrate_valid_files picks s)"
    unfolding migrate_valid_files_def by (rule run_moves_by_tag[OF tag js])
  show "distinct (map fst (migrate_valid_files picks s))"
    unfolding migrate_valid_files_def by (rule run_moves_distinct[OF wf])
  show "map_of (migrate_valid_files picks s) (POC_DIR @ [t, f]) =
           (case map_of s (TMP_DIR @ [t, f]) of Some n \<Rightarrow> Some n | None \<Rightarrow> map_of s (POC_DIR @ [t, f]))"
  proof (cases "isfile s (TMP_DIR @ [t, f])")
    case True
    then have "(TMP_DIR @ [t, f], POC_DIR @ [t, f]) \<in> set ?js"
      by (simp add: as_completed_set migration_jobs_mem)
    from run_moves_target[OF tag js d this] show ?thesis
      by (simp add: migrate_valid_files_def)
  next
    case False
    have a: "POC_DIR @ [t, f] \<notin> fst ` set ?js"
    proof
      assume "POC_DIR @ [t, f] \<in> fst ` set ?js"
      then obtain b where "(POC_DIR @ [t, f], b) \<in> set ?js" by auto
      from under[OF this] show False by (simp add: TMP_DIR_def POC_DIR_def)
    qed
    have b: "POC_DIR @ [t, f] \<notin> snd ` set ?js"
    proof
      assume "POC_DIR @ [t, f] \<in> snd ` set ?js"
      then obtain a where a: "(a, POC_DIR @ [t, f]) \<in> set ?js" by auto
      with js have "migration_job (a, POC_DIR @ [t, f])" by (auto simp: list_all_iff)
      then have "a = TMP_DIR @ [t, f]" by (auto simp: migration_job_def)
      with a have "TMP_DIR @ [t, f] \<in> fst ` set ?js" by force
      with fst_js False show False by (simp add: walk_set)
    qed
    from run_moves_frame[OF tag js a b] False show ?thesis
      by (simp add: migrate_valid_files_def isfile_def)
  qed
  show "map_of (migrate_valid_files picks s) p = None" if p: "strict_prefix TMP_DIR p"
  proof (cases "isfile s p")
    case True
    with p have "p \<in> fst ` set ?js" by (simp add: fst_js walk_set)
    from run_moves_source[OF tag js this] show ?thesis
      by (simp add: migrate_valid_files_def)
  next
    case False
    with p have a: "p \<notin> fst ` set ?js" by (simp add: fst_js walk_set)
    have b: "p \<notin> snd ` set ?js"
    proof
      assume "p \<in> snd ` set ?js"
      then obtain a where "(a, p) \<in> set ?js" by auto
      from under[OF this] p trees_disjoint(1)[of p] show False by blast
    qed
    from run_moves_frame[OF tag js a b] False show ?thesis
      by (simp add: migrate_valid_files_def isfile_def)
  qed
  show "map_of (migrate_valid_files picks s) p = map_of s p"
    if "\<not> strict_prefix TMP_DIR p" "\<not> strict_prefix POC_DIR p"
  proof -
    have a: "p \<notin> fst ` set ?js" using under that(1) by force
    have b: "p \<notin> snd ` set ?js" using under that(2) by force
    from run_moves_frame[OF tag js a b] show ?thesis
      by (simp add: migrate_valid_files_def)
  qed
qed

lemma filter_keys_shape:
  assumes "s' = filter (\<lambda>(p, n). Q p) s"
  shows "staging_flat s \<Longrightarrow> staging_flat s'"
    and "corpus_by_tag s \<Longrightarrow> corpus_by_tag s'"
    and "staging_clean s \<Longrightarrow> staging_clean s'"
    and "distinct (map fst s) \<Longrightarrow> distinct (map fst s')"
  unfolding assms
  by (auto simp: staging_flat_def corpus_by_tag_def staging_clean_def list_all_iff walk_filter_key
      isfile_def map_of_filter_key map_fst_filter_key distinct_map_filter)

subsection \<open>Categorization on trees of the expected shape\<close>

lemma hash_all_Inr:
  "hash_all sha fs ps = Inr ex \<Longrightarrow>
   ex = map (\<lambda>p. the (fingerprint sha fs p)) ps \<and> (\<forall>p\<in>set ps. \<exists>c. map_of fs p = Some (File c))"
proof (induction ps arbitrary: ex)
  case Nil
  then show ?case by simp
next
  case (Cons p ps)
  from Cons.prems obtain q h hs where a: "calculate_sha256 sha fs p = Inr (q, h)"
    and b: "hash_all sha fs ps = Inr hs" and e: "ex = h # hs"
    by (auto split: sum.splits prod.splits)
  from calculate_sha256_Inr[OF a] obtain c where c: "map_of fs p = Some (File c)" "h = sha c"
    "fingerprint sha fs p = Some (sha c)" by auto
  from Cons.IH[OF b] c e show ?case by simp
qed

lemma hash_all_total:
  "\<forall>p\<in>set ps. \<exists>c. map_of fs p = Some (File c) \<Longrightarrow> \<exists>ex. hash_all sha fs ps = Inr ex"
  by (induction ps) (auto simp: calculate_sha256_def)

lemma hash_all_Inl:
  "hash_all sha fs ps = Inl e \<Longrightarrow> \<exists>p\<in>set ps. \<not> (\<exists>c. map_of fs p = Some (File c))"
  using hash_all_total[of ps fs sha] by force

lemma hash_all_mem:
  assumes "hash_all sha fs ps = Inr ex"
  shows "h \<in> set ex \<longleftrightarrow> (\<exists>p\<in>set ps. fingerprint sha fs p = Some h)"
proof -
  from hash_all_Inr[OF assms] have ex: "ex = map (\<lambda>p. the (fingerprint sha fs p)) ps"
    and r: "\<forall>p\<in>set ps. \<exists>c. map_of fs p = Some (File c)" by simp_all
  have "fingerprint sha fs p = Some (the (fingerprint sha fs p))" if "p \<in> set ps" for p
    using r that by (auto simp: fingerprint_def)
  then show ?thesis unfolding ex by (auto simp: image_iff) (metis option.sel)+
qed

lemma candidates_under_clone: "p \<in> set (candidates fs) \<Longrightarrow> strict_prefix CLONE_DIR p"
  by (simp add: candidates_def walk_set)

lemma stage_tags_fst: "(a, d) \<in> set (stage_tags fs src items) \<Longrightarrow> a = src"
  by (induction fs src items rule: stage_tags.induct) (auto simp: Let_def split: sum.splits)

lemma process_poc_fst: "(a, d) \<in> set (process_poc sha load_tags fs ex src) \<Longrightarrow> a = src"
  by (auto simp: process_poc_def split: option.splits node.splits if_splits dest: stage_tags_fst)

lemma staging_jobs_mem:
  assumes "staging_flat s" and "tags_plain load_tags s"
  shows "(src, d) \<in> set (staging_jobs sha load_tags s ex) \<longleftrightarrow>
         src \<in> set (candidates s) \<and>
         (\<exists>h. fingerprint sha s src = Some h \<and> h \<notin> set ex) \<and>
         (\<exists>t\<in>set (declared_tags load_tags s src). d = TMP_DIR @ [t, basename src])"
proof -
  have pp: "process_poc sha load_tags s ex q =
         (case fingerprint sha s q of
            None \<Rightarrow> []
          | Some h \<Rightarrow> if h \<in> set ex then []
                       else map (\<lambda>t. (q, TMP_DIR @ [t, basename q])) (declared_tags load_tags s q))"
    if "q \<in> set (candidates s)" for q
  proof (rule process_poc_plain[OF assms(1)])
    from assms(2) that show "list_all plain_name (declared_tags load_tags s q)"
      by (simp add: tags_plain_def list_all_iff)
  qed
  have "(src, d) \<in> set (staging_jobs sha load_tags s ex) \<longleftrightarrow>
        (\<exists>q\<in>set (candidates s). (src, d) \<in> set (process_poc sha load_tags s ex q))"
    by (simp add: staging_jobs_def)
  also have "\<dots> \<longleftrightarrow> src \<in> set (candidates s) \<and> (src, d) \<in> set (process_poc sha load_tags s ex src)"
    using process_poc_fst by blast
  also have "\<dots> \<longleftrightarrow> src \<in> set (candidates s) \<and>
         (\<exists>h. fingerprint sha s src = Some h \<and> h \<notin> set ex) \<and>
         (\<exists>t\<in>set (declared_tags load_tags s src). d = TMP_DIR @ [t, basename src])"
  proof (cases "src \<in> set (candidates s)")
    case True
    show ?thesis
      unfolding pp[OF True] using True
      by (cases "fingerprint sha s src") auto
  next
    case False
    then show ?thesis by simp
  qed
  finally show ?thesis .
qed

lemma staging_jobs_shape:
  assumes "staging_flat s" and "tags_plain load_tags s"
  shows "list_all staging_job (staging_jobs sha load_tags s ex)"
proof -
  have "staging_job (src, d)" if "(src, d) \<in> set (staging_jobs sha load_tags s ex)" for src d
  proof -
    from that staging_jobs_mem[OF assms] obtain t where c: "src \<in> set (candidates s)"
      and d: "d = TMP_DIR @ [t, basename src]" by blast
    from candidates_under_clone[OF c] trees_disjoint(2)[of src]
    have "\<not> strict_prefix TMP_DIR src" by blast
    with d show ?thesis by (auto simp: staging_job_def)
  qed
  then show ?thesis by (auto simp: list_all_iff)
qed

lemma outside_shape:
  assumes "filter (\<lambda>(p, n). \<not> strict_prefix TMP_DIR p) s' = filter (\<lambda>(p, n). \<not> strict_prefix TMP_DIR p) s"
  shows "walk POC_DIR s' = walk POC_DIR s" and "walk CLONE_DIR s' = walk CLONE_DIR s"
    and "\<not> strict_prefix TMP_DIR p \<Longrightarrow> map_of s' p = map_of s p"
    and "corpus_by_tag s' = corpus_by_tag s"
    and "candidates s' = candidates s"
proof -
  show w: "walk POC_DIR s' = walk POC_DIR s"
    by (rule walk_outside[OF assms]) (simp_all add: POC_DIR_def TMP_DIR_def)
  show c: "walk CLONE_DIR s' = walk CLONE_DIR s"
    by (rule walk_outside[OF assms]) (simp_all add: CLONE_DIR_def TMP_DIR_def)
  show m: "map_of s' p = map_of s p" if "\<not> strict_prefix TMP_DIR p" for p
    using map_of_outside[of "\<lambda>p. \<not> strict_prefix TMP_DIR p" s' s p] assms that by simp
  have "map_of s' POC_DIR = map_of s POC_DIR"
    by (rule m) (simp add: POC_DIR_def TMP_DIR_def)
  with w show "corpus_by_tag s' = corpus_by_tag s"
    by (simp add: corpus_by_tag_def isfile_def)
  from c show "candidates s' = candidates s" by (simp add: candidates_def)
qed

text \<open>The tree after the categorization, when staging was clean and the tags are plain.\<close>

lemma categorization_Inr:
  "dynamic_categorization sha load_tags picks s0 = Inr s1 \<Longrightarrow>
   \<exists>ex. hash_all sha s0 (walk POC_DIR s0) = Inr ex \<and>
        s1 = run_copies s0 (as_completed picks (staging_jobs sha load_tags s0 ex))"
  by (auto simp: dynamic_categorization_def split: sum.splits)

lemma categorization_result:
  assumes wf: "distinct (map fst s0)" and clean: "staging_clean s0"
      and plain: "tags_plain load_tags s0"
      and ex: "hash_all sha s0 (walk POC_DIR s0) = Inr ex"
      and cat: "dynamic_categorization sha load_tags picks s0 = Inr s1"
  shows "map_of s1 (TMP_DIR @ [t, f]) = Some n \<Longrightarrow>
           \<exists>src c. (src, TMP_DIR @ [t, f]) \<in> set (staging_jobs sha load_tags s0 ex) \<and>
              map_of s0 src = Some (File c) \<and> n = File c"
    and "(src, d) \<in> set (staging_jobs sha load_tags s0 ex) \<Longrightarrow> map_of s0 src = Some (File c) \<Longrightarrow>
           \<exists>src' c'. (src', d) \<in> set (staging_jobs sha load_tags s0 ex) \<and>
              map_of s0 src' = Some (File c') \<and> map_of s1 d = Some (File c')"
    and "staging_flat s1" and "distinct (map fst s1)"
    and "filter (\<lambda>(p, n). \<not> strict_prefix TMP_DIR p) s1 = filter (\<lambda>(p, n). \<not> strict_prefix TMP_DIR p) s0"
proof -
  from cat ex have s1: "s1 = run_copies s0 (as_completed picks (staging_jobs sha load_tags s0 ex))"
    by (auto simp: dynamic_categorization_def)
  let ?jobs = "staging_jobs sha load_tags s0 ex"
  let ?run = "as_completed picks ?jobs"
  note flat = staging_clean_flat[OF clean]
  have js: "list_all staging_job ?run"
    by (simp add: as_completed_list_all staging_jobs_shape[OF flat plain])
  have set_run: "set ?run = set ?jobs" by (rule as_completed_set)
  show "staging_flat s1" unfolding s1 by (rule run_copies_flat[OF flat js])
  show "distinct (map fst s1)" unfolding s1 by (rule run_copies_distinct[OF wf])
  show "filter (\<lambda>(p, n). \<not> strict_prefix TMP_DIR p) s1 = filter (\<lambda>(p, n). \<not> strict_prefix TMP_DIR p) s0"
    unfolding s1 by (rule run_copies_outside[OF flat js])
  have empty: "map_of s0 (TMP_DIR @ [t, f]) = None" for t f
  proof -
    have "strict_prefix TMP_DIR (TMP_DIR @ [t, f])" by (simp add: TMP_DIR_def)
    moreover have "set (walk TMP_DIR s0) = {}" using clean by (simp add: staging_clean_def)
    ultimately have "\<not> isfile s0 (TMP_DIR @ [t, f])" unfolding walk_set by blast
    then show ?thesis by (simp add: isfile_def)
  qed
  show "\<exists>src c. (src, TMP_DIR @ [t, f]) \<in> set ?jobs \<and> map_of s0 src = Some (File c) \<and> n = File c"
    if "map_of s1 (TMP_DIR @ [t, f]) = Some n"
    using run_copies_staged[OF flat js, of "TMP_DIR @ [t, f]"] that empty[of t f]
    unfolding s1 set_run by auto
  show "\<exists>src' c'. (src', d) \<in> set ?jobs \<and> map_of s0 src' = Some (File c') \<and>
      map_of s1 d = Some (File c')"
    if "(src, d) \<in> set ?jobs" "map_of s0 src = Some (File c)"
    using run_copies_staged[OF flat js, of d] that
    unfolding s1 set_run by auto
qed

subsection \<open>From the working copies to the corpus\<close>

lemma enterprise_validation_Inr:
  assumes "distinct (map fst s1)" and "enterprise_validation check picks s1 = Inr s3"
  shows "\<exists>s2. validate_staging check s1 = Inr s2 \<and> s3 = migrate_valid_files picks s2 \<and>
           s2 = filter (\<lambda>(p, n). \<not> (strict_prefix TMP_DIR p \<and> check 120 p (map_of s1 p) \<noteq> Exited 0)) s1"
  using assms(2) validate_staging_result[OF assms(1), of check]
  by (auto simp: enterprise_validation_def)

text \<open>The tree after categorization, validation and migration.\<close>

lemma curated_result:
  assumes wf: "distinct (map fst s0)" and clean: "staging_clean s0" and tag: "corpus_by_tag s0"
      and plain: "tags_plain load_tags s0"
      and ex: "hash_all sha s0 (walk POC_DIR s0) = Inr ex"
      and cat: "dynamic_categorization sha load_tags cp s0 = Inr s1"
      and val: "enterprise_validation check mp s1 = Inr s3"
  shows "corpus_by_tag s3" and "distinct (map fst s3)"
    and "map_of s3 (POC_DIR @ [t, f]) =
           (case map_of s1 (TMP_DIR @ [t, f]) of
              Some n \<Rightarrow> if check 120 (TMP_DIR @ [t, f]) (Some n) = Exited 0 then Some n
                         else map_of s0 (POC_DIR @ [t, f])
            | None \<Rightarrow> map_of s0 (POC_DIR @ [t, f]))"
    and "strict_prefix TMP_DIR p \<Longrightarrow> map_of s3 p = None"
    and "\<not> strict_prefix TMP_DIR p \<Longrightarrow> \<not> strict_prefix POC_DIR p \<Longrightarrow> map_of s3 p = map_of s0 p"
proof -
  note c = categorization_result[OF wf clean plain ex cat]
  note out = outside_shape[OF c(5)]
  from enterprise_validation_Inr[OF c(4) val] obtain s2
    where v: "validate_staging check s1 = Inr s2" and s3: "s3 = migrate_valid_files mp s2"
      and s2: "s2 = filter (\<lambda>(p, n). \<not> (strict_prefix TMP_DIR p \<and> check 120 p (map_of s1 p) \<noteq> Exited 0)) s1"
    by blast
  have tag1: "corpus_by_tag s1" using out(4) tag by simp
  note sh = filter_keys_shape[OF s2]
  have wf2: "distinct (map fst s2)" by (rule sh(4)[OF c(4)])
  have flat2: "staging_flat s2" by (rule sh(1)[OF c(3)])
  have tag2: "corpus_by_tag s2" by (rule sh(2)[OF tag1])
  note m = migrate_result[OF wf2 flat2 tag2, where picks = mp, folded s3]
  note l = validated_lookup[OF c(4) v]
  show "corpus_by_tag s3" by (rule m(1))
  show "distinct (map fst s3)" by (rule m(5))
  show "map_of s3 p = None" if "strict_prefix TMP_DIR p" using that by (rule m(3))
  show "map_of s3 p = map_of s0 p" if a: "\<not> strict_prefix TMP_DIR p" and b: "\<not> strict_prefix POC_DIR p"
  proof -
    have "map_of s3 p = map_of s2 p" using a b by (rule m(4))
    also have "\<dots> = map_of s1 p" using l[of p] a by simp
    also have "\<dots> = map_of s0 p" using a by (rule out(3))
    finally show ?thesis .
  qed
  have st: "strict_prefix TMP_DIR (TMP_DIR @ [t, f])" by (simp add: TMP_DIR_def)
  have np: "\<not> strict_prefix TMP_DIR (POC_DIR @ [t, f])" by (simp add: TMP_DIR_def POC_DIR_def)
  have p2: "map_of s2 (POC_DIR @ [t, f]) = map_of s0 (POC_DIR @ [t, f])"
    using l[of "POC_DIR @ [t, f]"] np out(3)[OF np] by simp
  show "map_of s3 (POC_DIR @ [t, f]) =
           (case map_of s1 (TMP_DIR @ [t, f]) of
              Some n \<Rightarrow> if check 120 (TMP_DIR @ [t, f]) (Some n) = Exited 0 then Some n
                         else map_of s0 (POC_DIR @ [t, f])
            | None \<Rightarrow> map_of s0 (POC_DIR @ [t, f]))"
    unfolding m(2)[of t f] p2 l[of "TMP_DIR @ [t, f]"] using st
    by (auto split: option.splits)
qed

text \<open>Where a corpus file comes from: it was there before, or it is an accepted copy of a candidate.\<close>

lemma corpus_file_origin:
  assumes wf: "distinct (map fst s0)" and clean: "staging_clean s0" and tag: "corpus_by_tag s0"
      and plain: "tags_plain load_tags s0"
      and ex: "hash_all sha s0 (walk POC_DIR s0) = Inr ex"
      and cat: "dynamic_categorization sha load_tags cp s0 = Inr s1"
      and val: "enterprise_validation check mp s1 = Inr s3"
      and p: "p \<in> set (walk POC_DIR s3)"
  shows "(p \<in> set (walk POC_DIR s0) \<and> map_of s3 p = map_of s0 p \<and>
            (\<exists>h\<in>set ex. fingerprint sha s3 p = Some h)) \<or>
         (\<exists>t src c. p = POC_DIR @ [t, basename src] \<and> src \<in> set (candidates s0) \<and>
            map_of s0 src = Some (File c) \<and> sha c \<notin> set ex \<and>
            t \<in> set (declared_tags load_tags s0 src) \<and> map_of s3 p = Some (File c) \<and>
            check 120 (TMP_DIR @ [t, basename src]) (Some (File c)) = Exited 0)"
proof -
  note r = curated_result[OF wf clean tag plain ex cat val]
  note c = categorization_result[OF wf clean plain ex cat]
  from corpus_path_shape[OF r(1) p] obtain t f where tf: "p = POC_DIR @ [t, f]" by blast
  from p have isf: "map_of s3 p \<noteq> None" and pp: "strict_prefix POC_DIR p"
    by (simp_all add: walk_set isfile_def)
  show ?thesis
  proof (cases "\<exists>n. map_of s1 (TMP_DIR @ [t, f]) = Some n \<and> check 120 (TMP_DIR @ [t, f]) (Some n) = Exited 0")
    case True
    then obtain n where n: "map_of s1 (TMP_DIR @ [t, f]) = Some n"
      "check 120 (TMP_DIR @ [t, f]) (Some n) = Exited 0" by blast
    from c(1)[OF n(1)] obtain src c where j: "(src, TMP_DIR @ [t, f]) \<in> set (staging_jobs sha load_tags s0 ex)"
      and sc: "map_of s0 src = Some (File c)" "n = File c" by blast
    from j staging_jobs_mem[OF staging_clean_flat[OF clean] plain, of src "TMP_DIR @ [t, f]" sha ex]
    obtain h t' where cand: "src \<in> set (candidates s0)" and h: "fingerprint sha s0 src = Some h" "h \<notin> set ex"
      and t': "t' \<in> set (declared_tags load_tags s0 src)" "TMP_DIR @ [t, f] = TMP_DIR @ [t', basename src]"
      by blast
    from t'(2) have e: "t' = t" "f = basename src" by simp_all
    from h sc have "sha c \<notin> set ex" by (simp add: fingerprint_def)
    moreover have "map_of s3 p = Some (File c)"
      unfolding tf r(3)[of t f] using n sc by simp
    ultimately show ?thesis
      using tf e cand sc t'(1) n(2) by blast
  next
    case False
    have same: "map_of s3 p = map_of s0 p"
      unfolding tf r(3)[of t f] using False by (auto split: option.splits)
    with isf pp have w: "p \<in> set (walk POC_DIR s0)" by (simp add: walk_set isfile_def)
    from hash_all_Inr[OF ex] w obtain c where c0: "map_of s0 p = Some (File c)" by blast
    then have "fingerprint sha s0 p = Some (sha c)" by (simp add: fingerprint_def)
    with hash_all_mem[OF ex, of "sha c"] w have "sha c \<in> set ex" by blast
    moreover have "fingerprint sha s3 p = Some (sha c)" using same c0 by (simp add: fingerprint_def)
    ultimately show ?thesis using w same by blast
  qed
qed

subsection \<open>Fingerprints in the corpus\<close>

lemma declared_tags_cong:
  "map_of s' p = map_of s p \<Longrightarrow> declared_tags load_tags s' p = declared_tags load_tags s p"
  by (simp add: declared_tags_def)

lemma dedup_shape:
  assumes wf: "distinct (map fst fs)" and run: "enterprise_deduplication sha picks fs = Inr s0"
  shows "distinct (map fst s0)"
    and "staging_clean fs \<Longrightarrow> staging_clean s0"
    and "corpus_by_tag fs \<Longrightarrow> corpus_by_tag s0"
    and "tags_plain load_tags fs \<Longrightarrow> tags_plain load_tags s0"
    and "walk POC_DIR s0 = walk POC_DIR fs"
    and "\<not> strict_prefix CLONE_DIR p \<Longrightarrow> map_of s0 p = map_of fs p"
    and "p \<in> set (candidates s0) \<Longrightarrow> p \<in> set (candidates fs) \<and> map_of s0 p = map_of fs p"
proof -
  let ?D = "duplicates sha picks fs"
  note s0 = dedup_result(1)[OF wf run]
  note sh = filter_keys_shape[OF s0]
  show "distinct (map fst s0)" by (rule sh(4)[OF wf])
  show "staging_clean fs \<Longrightarrow> staging_clean s0" by (rule sh(3))
  show "corpus_by_tag fs \<Longrightarrow> corpus_by_tag s0" by (rule sh(2))
  have dup: "strict_prefix CLONE_DIR q" if "q \<in> set ?D" for q
  proof -
    from that have "q \<in> set (completion_order picks fs)" by (simp add: duplicates_def)
    then have "q \<in> set (candidates fs)" by (simp add: completion_order_def as_completed_set)
    then show ?thesis by (rule candidates_under_clone)
  qed
  have look: "map_of s0 q = (if q \<in> set ?D then None else map_of fs q)" for q
    unfolding s0 by (simp add: map_of_filter_key)
  show o: "map_of s0 p = map_of fs p" if "\<not> strict_prefix CLONE_DIR p"
    using look[of p] dup[of p] that by auto
  have cand: "candidates s0 = filter (\<lambda>p. p \<notin> set ?D) (candidates fs)"
    unfolding s0 by (rule candidates_filter_key)
  show c: "p \<in> set (candidates s0) \<Longrightarrow> p \<in> set (candidates fs) \<and> map_of s0 p = map_of fs p"
    using look[of p] by (simp add: cand)
  have "walk POC_DIR s0 = filter (\<lambda>p. p \<notin> set ?D) (walk POC_DIR fs)"
    unfolding s0 by (rule walk_filter_key)
  also have "\<dots> = walk POC_DIR fs"
  proof (rule filter_True, rule ballI)
    fix q assume "q \<in> set (walk POC_DIR fs)"
    then have "strict_prefix POC_DIR q" by (simp add: walk_set)
    with trees_disjoint(3)[of q] dup[of q] show "q \<notin> set ?D" by blast
  qed
  finally show "walk POC_DIR s0 = walk POC_DIR fs" .
  show "tags_plain load_tags s0" if t: "tags_plain load_tags fs"
    unfolding tags_plain_def list_all_iff
  proof
    fix q assume q: "q \<in> set (candidates s0)"
    then have "q \<in> set (candidates fs)" and "map_of s0 q = map_of fs q"
      using look[of q] by (simp_all add: cand)
    with t declared_tags_cong[of s0 q fs load_tags]
    show "\<forall>x\<in>set (declared_tags load_tags s0 q). plain_name x"
      by (simp add: tags_plain_def list_all_iff)
  qed
qed

text \<open>
  C1 as stated does not hold: a rule that declares two tags is staged twice and migrated
  twice, and the two corpus files have the same content and so the same fingerprint.
\<close>

theorem two_tags_two_fingerprints_equal:
  "enterprise_deduplication plain_digest [] one_rule_tree = Inr one_rule_tree \<and>
   dynamic_categorization plain_digest toy_tags [] one_rule_tree = Inr one_rule_staged \<and>
   enterprise_validation accept_all [] one_rule_staged = Inr one_rule_curated \<and>
   walk POC_DIR one_rule_curated = [[''poc'', ''rce'', ''x.yaml''], [''poc'', ''cve'', ''x.yaml'']] \<and>
   fingerprint plain_digest one_rule_curated [''poc'', ''rce'', ''x.yaml''] =
   fingerprint plain_digest one_rule_curated [''poc'', ''cve'', ''x.yaml'']"
  by code_simp

text \<open>
  C1, amended. Let the run start with an empty staging tree, a corpus organised by tag
  and tags that are plain names, and let deduplication, categorization, validation and
  migration complete. Then two different corpus files have the same fingerprint only if
  both were in the corpus before the run and the run left them alone, or they are the
  copies of one candidate rule under two of its tags, \<^verbatim>\<open>poc/t/name\<close> and \<^verbatim>\<open>poc/t'/name\<close>.
\<close>

theorem shared_fingerprint_origin:
  assumes "distinct (map fst fs)" and "staging_clean fs" and "corpus_by_tag fs"
      and "tags_plain load_tags fs"
      and "enterprise_deduplication sha dp fs = Inr s0"
      and "dynamic_categorization sha load_tags cp s0 = Inr s1"
      and "enterprise_validation check mp s1 = Inr s3"
      and "p \<in> set (walk POC_DIR s3)" and "q \<in> set (walk POC_DIR s3)" and "p \<noteq> q"
      and "fingerprint sha s3 p = fingerprint sha s3 q"
  shows "(p \<in> set (walk POC_DIR fs) \<and> q \<in> set (walk POC_DIR fs) \<and>
            map_of s3 p = map_of fs p \<and> map_of s3 q = map_of fs q) \<or>
         (\<exists>src t t'. src \<in> set (candidates s0) \<and>
            t \<in> set (declared_tags load_tags s0 src) \<and>
            t' \<in> set (declared_tags load_tags s0 src) \<and> t \<noteq> t' \<and>
            p = POC_DIR @ [t, basename src] \<and> q = POC_DIR @ [t', basename src] \<and>
            map_of s3 p = map_of s0 src \<and> map_of s3 q = map_of s0 src)"
proof -
  note d = dedup_shape[OF assms(1) assms(5)]
  have wf0: "distinct (map fst s0)" by (rule d(1))
  have clean0: "staging_clean s0" by (rule d(2)[OF assms(2)])
  have tag0: "corpus_by_tag s0" by (rule d(3)[OF assms(3)])
  have plain0: "tags_plain load_tags s0" by (rule d(4)[OF assms(4)])
  from categorization_Inr[OF assms(6)] obtain ex where ex: "hash_all sha s0 (walk POC_DIR s0) = Inr ex"
    by blast
  note origin = corpus_file_origin[OF wf0 clean0 tag0 plain0 ex assms(6) assms(7)]
  have old: "x \<in> set (walk POC_DIR fs) \<and> map_of s3 x = map_of fs x"
    if "x \<in> set (walk POC_DIR s0)" "map_of s3 x = map_of s0 x" for x
  proof -
    from that(1) have "strict_prefix POC_DIR x" by (simp add: walk_set)
    with trees_disjoint(3)[of x] have "map_of s0 x = map_of fs x" using d(6)[of x] by blast
    with that d(5) show ?thesis by simp
  qed
  from origin[OF assms(8)] show ?thesis
  proof (elim disjE exE conjE bexE)
    fix h assume p0: "p \<in> set (walk POC_DIR s0)" "map_of s3 p = map_of s0 p"
      and h: "h \<in> set ex" "fingerprint sha s3 p = Some h"
    from origin[OF assms(9)] show ?thesis
    proof (elim disjE exE conjE bexE)
      fix h' assume q0: "q \<in> set (walk POC_DIR s0)" "map_of s3 q = map_of s0 q"
      from old[OF p0] old[OF q0] show ?thesis by blast
    next
      fix t src c assume "map_of s3 q = Some (File c)" "sha c \<notin> set ex"
      then have "fingerprint sha s3 q = Some (sha c)" "sha c \<notin> set ex"
        by (simp_all add: fingerprint_def)
      with h assms(11) show ?thesis by auto
    qed
  next
    fix t src c
    assume pn: "p = POC_DIR @ [t, basename src]" "src \<in> set (candidates s0)"
      "map_of s0 src = Some (File c)" "sha c \<notin> set ex"
      "t \<in> set (declared_tags load_tags s0 src)" "map_of s3 p = Some (File c)"
    then have fp: "fingerprint sha s3 p = Some (sha c)" by (simp add: fingerprint_def)
    from origin[OF assms(9)] show ?thesis
    proof (elim disjE exE conjE bexE)
      fix h assume "h \<in> set ex" "fingerprint sha s3 q = Some h"
      with fp pn(4) assms(11) show ?thesis by auto
    next
      fix t' src' c'
      assume qn: "q = POC_DIR @ [t', basename src']" "src' \<in> set (candidates s0)"
        "map_of s0 src' = Some (File c')" "sha c' \<notin> set ex"
        "t' \<in> set (declared_tags load_tags s0 src')" "map_of s3 q = Some (File c')"
      then have fq: "fingerprint sha s3 q = Some (sha c')" by (simp add: fingerprint_def)
      have same: "src = src'"
      proof (rule ccontr)
        assume "src \<noteq> src'"
        from dedup_unique[OF assms(1) assms(5) pn(2) qn(2) this] pn(3) qn(3)
        have "sha c \<noteq> sha c'" by (simp add: fingerprint_def)
        with fp fq assms(11) show False by simp
      qed
      with pn(3) qn(3) have cc: "c = c'" by simp
      from assms(10) pn(1) qn(1) same have "t \<noteq> t'" by auto
      with pn qn same cc
      have "src \<in> set (candidates s0) \<and>
            t \<in> set (declared_tags load_tags s0 src) \<and>
            t' \<in> set (declared_tags load_tags s0 src) \<and> t \<noteq> t' \<and>
            p = POC_DIR @ [t, basename src] \<and> q = POC_DIR @ [t', basename src] \<and>
            map_of s3 p = map_of s0 src \<and> map_of s3 q = map_of s0 src"
        by simp
      then show ?thesis by (intro disjI2 exI)
    qed
  qed
qed


lemma one_rule_shape:
  "distinct (map fst one_rule_tree)" "staging_clean one_rule_tree" "corpus_by_tag one_rule_tree"
  "tags_plain toy_tags one_rule_tree"
  by code_simp+

lemma one_rule_stages:
  "enterprise_deduplication plain_digest [] one_rule_tree = Inr one_rule_tree"
  "dynamic_categorization plain_digest toy_tags [] one_rule_tree = Inr one_rule_staged"
  "enterprise_validation accept_all [] one_rule_staged = Inr one_rule_curated"
  by code_simp+

lemma one_rule_corpus:
  "[''poc'', ''rce'', ''x.yaml''] \<in> set (walk POC_DIR one_rule_curated)"
  "[''poc'', ''cve'', ''x.yaml''] \<in> set (walk POC_DIR one_rule_curated)"
  "[''poc'', ''rce'', ''x.yaml''] \<noteq> [''poc'', ''cve'', ''x.yaml'']"
  "fingerprint plain_digest one_rule_curated [''poc'', ''rce'', ''x.yaml''] =
   fingerprint plain_digest one_rule_curated [''poc'', ''cve'', ''x.yaml'']"
  by code_simp+

theorem shared_fingerprint_origin_witness:
  "distinct (map fst one_rule_tree) \<and> staging_clean one_rule_tree \<and> corpus_by_tag one_rule_tree \<and>
   tags_plain toy_tags one_rule_tree \<and>
   enterprise_deduplication plain_digest [] one_rule_tree = Inr one_rule_tree \<and>
   dynamic_categorization plain_digest toy_tags [] one_rule_tree = Inr one_rule_staged \<and>
   enterprise_validation accept_all [] one_rule_staged = Inr one_rule_curated \<and>
   [''poc'', ''rce'', ''x.yaml''] \<in> set (walk POC_DIR one_rule_curated) \<and>
   [''poc'', ''cve'', ''x.yaml''] \<in> set (walk POC_DIR one_rule_curated) \<and>
   [''poc'', ''rce'', ''x.yaml''] \<noteq> [''poc'', ''cve'', ''x.yaml''] \<and>
   fingerprint plain_digest one_rule_curated [''poc'', ''rce'', ''x.yaml''] =
     fingerprint plain_digest one_rule_curated [''poc'', ''cve'', ''x.yaml''] \<and>
   (\<exists>src t t'. src \<in> set (candidates one_rule_tree) \<and>
      t \<in> set (declared_tags toy_tags one_rule_tree src) \<and>
      t' \<in> set (declared_tags toy_tags one_rule_tree src) \<and> t \<noteq> t' \<and>
      [''poc'', ''rce'', ''x.yaml''] = POC_DIR @ [t, basename src] \<and>
      [''poc'', ''cve'', ''x.yaml''] = POC_DIR @ [t', basename src] \<and>
      map_of one_rule_curated [''poc'', ''rce'', ''x.yaml''] = map_of one_rule_tree src \<and>
      map_of one_rule_curated [''poc'', ''cve'', ''x.yaml''] = map_of one_rule_tree src)"
proof -
  have empty: "walk POC_DIR one_rule_tree = []" by code_simp
  from shared_fingerprint_origin[OF one_rule_shape one_rule_stages one_rule_corpus] empty
  have "\<exists>src t t'. src \<in> set (candidates one_rule_tree) \<and>
      t \<in> set (declared_tags toy_tags one_rule_tree src) \<and>
      t' \<in> set (declared_tags toy_tags one_rule_tree src) \<and> t \<noteq> t' \<and>
      [''poc'', ''rce'', ''x.yaml''] = POC_DIR @ [t, basename src] \<and>
      [''poc'', ''cve'', ''x.yaml''] = POC_DIR @ [t', basename src] \<and>
      map_of one_rule_curated [''poc'', ''rce'', ''x.yaml''] = map_of one_rule_tree src \<and>
      map_of one_rule_curated [''poc'', ''cve'', ''x.yaml''] = map_of one_rule_tree src"
    by simp
  with one_rule_shape one_rule_stages one_rule_corpus show ?thesis
    by (intro conjI)
qed

subsection \<open>Fan-out by tag\<close>



















subsection \<open>A file that cannot be hashed\<close>

lemma dedup_loop_failed_future:
  "Inl e \<in> set futures \<Longrightarrow> \<exists>e'. dedup_loop hash_registry fs futures = Inl e'"
proof (induction hash_registry fs futures rule: dedup_loop.induct)
  case (3 hash_registry fs path file_hash futures)
  then show ?case
    by (cases "hash_registry file_hash"; cases "os_remove fs path") (auto simp del: fun_upd_apply)
qed simp_all

lemma unreadable_candidate_aborts:
  assumes "p \<in> set (candidates fs)" and "calculate_sha256 sha fs p = Inl e"
  shows "\<exists>e'. enterprise_deduplication sha picks fs = Inl e'"
proof -
  have "Inl e \<in> set (map (calculate_sha256 sha fs) (candidates fs))"
    using assms by force
  then have "Inl e \<in> set (as_completed picks (map (calculate_sha256 sha fs) (candidates fs)))"
    by (simp only: as_completed_set)
  then show ?thesis
    unfolding enterprise_deduplication_def by (rule dedup_loop_failed_future)
qed

text \<open>
  C9. The claim has every failed hash of a single file skipped, the run going on. The
  deduplication stage reads the result of every hash job and has no handler around it: a
  working copy that holds, beside a rule, a link named like a rule whose target is gone
  makes the hash of the link fail, the failure leaves the stage, and the run ends on the
  uncaught exception with status 1 before anything is categorized. Without the link the
  same run completes and puts the rule into the corpus.
\<close>

theorem unreadable_rule_aborts_run:
  "calculate_sha256 plain_digest dangling_link_tree [''clone-templates'', ''r1'', ''gone.yaml''] =
     Inl OSError \<and>
   enterprise_deduplication plain_digest [] dangling_link_tree = Inl OSError \<and>
   main quiet_world (Some small_config) dangling_link_tree = Uncaught OSError \<and>
   exit_status (main quiet_world (Some small_config) dangling_link_tree) = 1 \<and>
   main quiet_world (Some small_config) sound_tree =
     Completed [([''clone-templates'', ''r1'', ''x.yaml''], File ''tags: [rce]''),
                ([''poc'', ''rce'', ''x.yaml''], File ''tags: [rce]''),
                ([''poc.txt''], File (''rce/x.yaml'' @ [CHR 0x0A]))] 1"
  by code_simp

subsection \<open>A second run\<close>

















end
